theory Spec2Isabelle
  imports Main "HOL-Library.Sublist"
begin

section \<open>Strings and paths\<close>

text \<open>
  Go strings are byte sequences; they are modelled as \<open>string\<close> (a list of 8-bit
  characters).  The library functions of \<open>strings\<close>, \<open>fmt\<close> and
  \<open>path/filepath\<close> that the ingest code calls are modelled for a Unix target
  (separator \<open>/\<close>, no volume names), which is the deployment platform.
\<close>

definition isSep :: "char \<Rightarrow> bool" where
  "isSep c = (c = CHR ''/'')"

text \<open>\<open>strings.TrimSuffix\<close>: drop the suffix when the string ends with it.\<close>

definition TrimSuffix :: "string \<Rightarrow> string \<Rightarrow> string" where
  "TrimSuffix s suf =
     (if length suf \<le> length s \<and> drop (length s - length suf) s = suf
      then take (length s - length suf) s else s)"

text \<open>\<open>strings.Contains\<close>: the substring occurs at some offset.\<close>

fun Contains :: "string \<Rightarrow> string \<Rightarrow> bool" where
  "Contains [] sub = (sub = [])"
| "Contains (c # cs) sub = (take (length sub) (c # cs) = sub \<or> Contains cs sub)"

text \<open>
  \<open>strings.ReplaceAll\<close>: non-overlapping occurrences of \<open>old\<close> are replaced from
  left to right.  For an empty \<open>old\<close> Go inserts \<open>new\<close> before every character and
  at the end; the parser only ever passes the three non-empty placeholders.
\<close>

fun ReplaceAll :: "string \<Rightarrow> string \<Rightarrow> string \<Rightarrow> string" where
  "ReplaceAll s old new =
     (if old = [] then new @ concat (map (\<lambda>c. c # new) s)
      else if s = [] then []
      else if take (length old) s = old then new @ ReplaceAll (drop (length old) s) old new
      else hd s # ReplaceAll (tl s) old new)"

declare ReplaceAll.simps [simp del]

text \<open>The verb \<open>%d\<close> of \<open>fmt.Sprintf\<close>: decimal digits, with a sign for negatives.\<close>

fun showNat :: "nat \<Rightarrow> string" where
  "showNat n = (if n < 10 then [char_of (48 + n)] else showNat (n div 10) @ [char_of (48 + n mod 10)])"

declare showNat.simps [simp del]

definition showInt :: "int \<Rightarrow> string" where
  "showInt i = (if i < 0 then CHR ''-'' # showNat (nat (- i)) else showNat (nat i))"

text \<open>\<open>strings.Join(elems, "/")\<close>.\<close>

fun joinSep :: "string list \<Rightarrow> string" where
  "joinSep [] = []"
| "joinSep [x] = x"
| "joinSep (x # y # ys) = x @ CHR ''/'' # joinSep (y # ys)"

text \<open>The fields of a path between separators, empty ones included.\<close>

fun fieldsFrom :: "string \<Rightarrow> string \<Rightarrow> string list" where
  "fieldsFrom cur [] = [rev cur]"
| "fieldsFrom cur (c # cs) =
     (if isSep c then rev cur # fieldsFrom [] cs else fieldsFrom (c # cur) cs)"

definition pathFields :: "string \<Rightarrow> string list" where
  "pathFields path = fieldsFrom [] path"

text \<open>
  \<open>filepath.Clean\<close>, by its documented rules: separators are collapsed, \<open>.\<close>
  elements are dropped, an inner \<open>..\<close> removes the element before it, a \<open>..\<close>
  at the root is dropped, and the empty result is \<open>.\<close>.
\<close>

definition cleanStep :: "bool \<Rightarrow> string list \<Rightarrow> string \<Rightarrow> string list" where
  "cleanStep rooted out e =
     (if e = ''..''
      then (if out \<noteq> [] \<and> last out \<noteq> ''..'' then butlast out
            else if rooted then out else out @ [e])
      else out @ [e])"

definition Clean :: "string \<Rightarrow> string" where
  "Clean path =
     (if path = [] then ''.''
      else let rooted = isSep (hd path);
               out = foldl (cleanStep rooted) [] (filter (\<lambda>e. e \<noteq> [] \<and> e \<noteq> ''.'') (pathFields path));
               body = joinSep out
           in if rooted then CHR ''/'' # body else if body = [] then ''.'' else body)"

text \<open>\<open>filepath.Join\<close>: leading empty elements are skipped, the rest is joined and cleaned.\<close>

definition Join :: "string list \<Rightarrow> string" where
  "Join elem =
     (case dropWhile (\<lambda>e. e = []) elem of [] \<Rightarrow> [] | e # es \<Rightarrow> Clean (joinSep (e # es)))"

text \<open>\<open>filepath.Base\<close>: the last element, after trailing separators are stripped.\<close>

definition Base :: "string \<Rightarrow> string" where
  "Base path =
     (if path = [] then ''.''
      else let p = rev (dropWhile isSep (rev path));
               b = rev (takeWhile (\<lambda>c. \<not> isSep c) (rev p))
           in if b = [] then ''/'' else b)"

text \<open>
  \<open>filepath.Ext\<close>: scanning backwards from the end of the path up to the last
  separator, the suffix that begins at the first dot met.
\<close>

fun ExtScan :: "string \<Rightarrow> string \<Rightarrow> string" where
  "ExtScan [] acc = []"
| "ExtScan (c # cs) acc =
     (if isSep c then [] else if c = CHR ''.'' then c # acc else ExtScan cs (c # acc))"

definition Ext :: "string \<Rightarrow> string" where
  "Ext path = ExtScan (rev path) []"

text \<open>\<open>filepath.Dir\<close>: everything up to the last separator, cleaned.\<close>

definition Dir :: "string \<Rightarrow> string" where
  "Dir path = Clean (rev (dropWhile (\<lambda>c. \<not> isSep c) (rev path)))"

section \<open>Configuration\<close>

text \<open>
  The parts of \<open>config.Config\<close> that the ingest pipeline and \<open>Validate\<close> read.
  Go's \<open>int\<close> and \<open>int64\<close> fields are modelled as \<open>int\<close>: the counters of
  files are bounded by the length of a slice and never reach the word size, and the
  totals of bytes are summed with the wrap-around of \<open>int64\<close>.
\<close>

definition add64 :: "int \<Rightarrow> int \<Rightarrow> int" where
  "add64 a b = (a + b + 2 ^ 63) mod 2 ^ 64 - 2 ^ 63"

record TransferConfig =
  MaxWorkers :: int
  BufferSize :: int
  VerifyChecksums :: bool
  MaxRetries :: int
  PriorityPrefixes :: "string list"

record ParsingConfig =
  Pattern :: string
  FolderStructure :: string
  UnmatchedFolder :: string

record EmailConfig =
  EmailEnabled :: bool
  SMTPHost :: string
  SMTPPort :: int
  To :: "string list"

record DeviceConfig =
  MinSizeBytes :: int
  AllowedFilesystems :: "string list"
  ExcludePatterns :: "string list"

record Config =
  DestinationPath :: string
  Transfer :: TransferConfig
  Parsing :: ParsingConfig
  Email :: EmailConfig
  DeviceDetection :: DeviceConfig

datatype config_error =
    DestinationPathRequired
  | PatternRequired
  | SMTPIncomplete
  | NoRecipients

text \<open>
  \<open>Config.Validate\<close>, which \<open>config.Load\<close> applies to every configuration read
  from disk: it rejects a missing destination or pattern and repairs the worker count
  and the buffer size in place.
\<close>

definition Validate :: "Config \<Rightarrow> config_error + Config" where
  "Validate c =
     (if DestinationPath c = [] then Inl DestinationPathRequired
      else let t1 = (if MaxWorkers (Transfer c) < 1 then (Transfer c)\<lparr>MaxWorkers := 1\<rparr> else Transfer c);
               t2 = (if BufferSize t1 < 1024 then t1\<lparr>BufferSize := 1048576\<rparr> else t1)
           in if Pattern (Parsing c) = [] then Inl PatternRequired
              else if EmailEnabled (Email c) \<and> (SMTPHost (Email c) = [] \<or> SMTPPort (Email c) = 0)
                   then Inl SMTPIncomplete
              else if EmailEnabled (Email c) \<and> To (Email c) = [] then Inl NoRecipients
              else Inr (c\<lparr>Transfer := t2\<rparr>))"

section \<open>Regular expressions\<close>

text \<open>
  The parser compiles \<open>Parsing.Pattern\<close> with Go's \<open>regexp\<close> package and calls
  \<open>FindStringSubmatch\<close> on the result.  The compiled expression is modelled by its
  syntax tree, for the fragment of the RE2 syntax that file-name conventions use:
  literals, character classes, \<open>.\<close>, greedy \<open>*\<close> and \<open>+\<close> over a class,
  concatenation, alternation, numbered capture groups and the anchors \<open>^\<close> and
  \<open>$\<close>.  Matching is leftmost-first, as the package documents: of the matches
  that begin earliest, the one a backtracking search finds first.  A class holds bytes;
  a negated class matches the newline and \<open>.\<close> does not, as under the flags of
  \<open>regexp.Compile\<close>.
\<close>

datatype cclass =
    AnyChar                 \<comment> \<open>\<open>.\<close>: any character but a newline\<close>
  | OneOf "char list"       \<comment> \<open>\<open>[abc]\<close>\<close>
  | NoneOf "char list"      \<comment> \<open>\<open>[^abc]\<close>\<close>

fun inClass :: "cclass \<Rightarrow> char \<Rightarrow> bool" where
  "inClass AnyChar c = (c \<noteq> CHR 0x0A)"
| "inClass (OneOf cs) c = (c \<in> set cs)"
| "inClass (NoneOf cs) c = (c \<notin> set cs)"

datatype regex =
    Lit string
  | Class cclass
  | Star cclass
  | Plus cclass
  | Cat regex regex
  | Alt regex regex
  | Group nat regex
  | BeginText
  | EndText

text \<open>
  A matcher state is the offset reached in the text, the text still to be read and the
  captures recorded so far (latest first).  \<open>matches\<close> lists the states in which a
  match of the expression can end, in the order a backtracking search visits them.
\<close>

type_synonym mstate = "nat \<times> string \<times> (nat \<times> string) list"

fun matches :: "regex \<Rightarrow> mstate \<Rightarrow> mstate list" where
  "matches (Lit w) (p, s, caps) =
     (if take (length w) s = w then [(p + length w, drop (length w) s, caps)] else [])"
| "matches (Class k) (p, s, caps) =
     (case s of [] \<Rightarrow> [] | c # cs \<Rightarrow> if inClass k c then [(Suc p, cs, caps)] else [])"
| "matches (Star k) (p, s, caps) =
     map (\<lambda>n. (p + n, drop n s, caps)) (rev [0 ..< Suc (length (takeWhile (inClass k) s))])"
| "matches (Plus k) (p, s, caps) =
     map (\<lambda>n. (p + n, drop n s, caps)) (rev [1 ..< Suc (length (takeWhile (inClass k) s))])"
| "matches (Cat a b) st = concat (map (matches b) (matches a st))"
| "matches (Alt a b) st = matches a st @ matches b st"
| "matches (Group i r) (p, s, caps) =
     map (\<lambda>(p', s', caps'). (p', s', (i, take (p' - p) s) # caps')) (matches r (p, s, caps))"
| "matches BeginText (p, s, caps) = (if p = 0 then [(p, s, caps)] else [])"
| "matches EndText (p, s, caps) = (if s = [] then [(p, s, caps)] else [])"

fun NumSubexp :: "regex \<Rightarrow> nat" where
  "NumSubexp (Cat a b) = NumSubexp a + NumSubexp b"
| "NumSubexp (Alt a b) = NumSubexp a + NumSubexp b"
| "NumSubexp (Group i r) = Suc (NumSubexp r)"
| "NumSubexp _ = 0"

text \<open>
  Three syntactic properties of an expression: every match of it reads at least one
  character; it holds the group \<open>g\<close>; in every match of it the group \<open>g\<close> takes
  part and its last capture is not empty.  A group inside one branch of an alternation
  takes no part when the other branch matches, and a later group of the same number
  overrides an earlier one.
\<close>

fun consumes :: "regex \<Rightarrow> bool" where
  "consumes (Lit w) = (w \<noteq> [])"
| "consumes (Class k) = True"
| "consumes (Star k) = False"
| "consumes (Plus k) = True"
| "consumes (Cat a b) = (consumes a \<or> consumes b)"
| "consumes (Alt a b) = (consumes a \<and> consumes b)"
| "consumes (Group i r) = consumes r"
| "consumes BeginText = False"
| "consumes EndText = False"

fun hasGroup :: "regex \<Rightarrow> nat \<Rightarrow> bool" where
  "hasGroup (Cat a b) g = (hasGroup a g \<or> hasGroup b g)"
| "hasGroup (Alt a b) g = (hasGroup a g \<or> hasGroup b g)"
| "hasGroup (Group i r) g = (g = i \<or> hasGroup r g)"
| "hasGroup _ g = False"

fun alwaysCaptures :: "regex \<Rightarrow> nat \<Rightarrow> bool" where
  "alwaysCaptures (Cat a b) g =
     (alwaysCaptures b g \<or> (alwaysCaptures a g \<and> \<not> hasGroup b g))"
| "alwaysCaptures (Alt a b) g = (alwaysCaptures a g \<and> alwaysCaptures b g)"
| "alwaysCaptures (Group i r) g = (if g = i then consumes r else alwaysCaptures r g)"
| "alwaysCaptures _ g = False"

text \<open>
  \<open>Regexp.FindStringSubmatch\<close>: the text of the leftmost match followed by the text
  of each capture group (empty for a group that took no part), or the empty slice when
  there is no match.
\<close>

definition submatches :: "regex \<Rightarrow> string \<Rightarrow> nat \<Rightarrow> mstate \<Rightarrow> string list" where
  "submatches re s start st =
     (case st of (p', s', caps) \<Rightarrow>
        take (p' - start) s #
        map (\<lambda>g. case map_of caps g of None \<Rightarrow> [] | Some t \<Rightarrow> t) [1 ..< Suc (NumSubexp re)])"

fun findFrom :: "regex \<Rightarrow> nat \<Rightarrow> string \<Rightarrow> string list" where
  "findFrom re start s =
     (case matches re (start, s, []) of
        st # _ \<Rightarrow> submatches re s start st
      | [] \<Rightarrow> (case s of [] \<Rightarrow> [] | _ # cs \<Rightarrow> findFrom re (Suc start) cs))"

declare findFrom.simps [simp del]

definition FindStringSubmatch :: "regex \<Rightarrow> string \<Rightarrow> string list" where
  "FindStringSubmatch re s = findFrom re 0 s"

section \<open>Filename classifier\<close>

record FileInfo =
  OriginalPath :: string
  FileName :: string
  ProjectName :: string
  Client :: string
  Camera :: string
  ClipNumber :: string
  Extension :: string
  Matched :: bool

text \<open>
  The field \<open>pattern\<close> holds the expression that \<open>NewParser\<close> compiled from
  \<open>Parsing.Pattern\<close>.
\<close>

record Parser =
  pattern :: regex
  config :: Config

text \<open>\<open>Parser.Parse\<close>; the fields of \<open>FileInfo\<close> that are not assigned keep Go's zero value.\<close>

definition Parse :: "Parser \<Rightarrow> string \<Rightarrow> FileInfo" where
  "Parse p filePath =
     (let fileName = Base filePath;
          ext = Ext fileName;
          nameWithoutExt = TrimSuffix fileName ext;
          ms = FindStringSubmatch (pattern p) nameWithoutExt
      in if length ms = 5
         then \<lparr>OriginalPath = filePath, FileName = fileName, ProjectName = ms ! 1,
               Client = ms ! 2, Camera = ms ! 3, ClipNumber = ms ! 4, Extension = ext,
               Matched = True\<rparr>
         else \<lparr>OriginalPath = filePath, FileName = fileName, ProjectName = [],
               Client = [], Camera = [], ClipNumber = [], Extension = ext,
               Matched = False\<rparr>)"

definition GetDestinationPath :: "Parser \<Rightarrow> FileInfo \<Rightarrow> string" where
  "GetDestinationPath p info =
     (let basePath = DestinationPath (config p)
      in if \<not> Matched info then Join [basePath, UnmatchedFolder (Parsing (config p))]
         else let s0 = FolderStructure (Parsing (config p));
                  s1 = ReplaceAll s0 ''{client}'' (Client info);
                  s2 = ReplaceAll s1 ''{project}'' (ProjectName info);
                  s3 = ReplaceAll s2 ''{camera}'' (Camera info)
              in Join [basePath, s3])"

definition GetFullDestinationPath :: "Parser \<Rightarrow> FileInfo \<Rightarrow> string" where
  "GetFullDestinationPath p info =
     (let destDir = GetDestinationPath p info
      in if Matched info then Join [destDir, ClipNumber info @ Extension info]
         else Join [destDir, FileName info])"

section \<open>Operating-system environment\<close>

text \<open>
  What the pipeline observes of the operating system is a parameter of the model: the
  answers of \<open>os.Stat\<close> and \<open>os.Lstat\<close>, the outcome of each file operation of a
  transfer, what a directory walk returns, and the digest function.  File contents are
  byte strings.
\<close>

type_synonym bytes = string

record StatInfo =
  IsDir :: bool
  StatSize :: int

datatype glob_error = ErrBadPattern

datatype copy_result =
    CopyFailed bytes    \<comment> \<open>an I/O error after these bytes were written\<close>
  | Copied bytes        \<comment> \<open>the whole source was read and written\<close>

datatype scan_error = WalkError

record os_env =
  os_Stat :: "string \<Rightarrow> StatInfo option"
  os_Lstat :: "string \<Rightarrow> bool"
  glob_meta :: "string \<Rightarrow> glob_error + string list"
  walk :: "string \<Rightarrow> scan_error + string list"
  mkdir_fails :: "string \<Rightarrow> bool"
  open_fails :: "string \<Rightarrow> bool"
  create_fails :: "string \<Rightarrow> bool"
  io_copy :: "string \<Rightarrow> copy_result"
  stored :: "string \<Rightarrow> bytes \<Rightarrow> bytes"
  reread_fails :: "string \<Rightarrow> bool"
  sha256hex :: "bytes \<Rightarrow> string"

text \<open>
  \<open>stored env path data\<close> is what a later read of \<open>path\<close> returns after
  \<open>data\<close> was written to it: \<open>data\<close> itself on a healthy medium, anything else
  when the destination is corrupted between the write and the read.

  \<open>filepath.Glob\<close>: a pattern without metacharacters is probed with \<open>Lstat\<close> and
  yields itself or nothing, in both cases without an error; the only error Glob ever
  returns is \<open>ErrBadPattern\<close>, for a malformed pattern (Go 1.21, which the
  repository requires, checks the syntax of the pattern before it reads a directory).
  Its result on patterns that do contain metacharacters is left to the environment.
\<close>

definition hasMeta :: "string \<Rightarrow> bool" where
  "hasMeta path = list_ex (\<lambda>c. c = CHR ''*'' \<or> c = CHR ''?'' \<or> c = CHR ''['' \<or> c = CHR 0x5C) path"

definition Glob :: "os_env \<Rightarrow> string \<Rightarrow> glob_error + string list" where
  "Glob env pat =
     (if hasMeta pat then glob_meta env pat
      else if os_Lstat env pat then Inr [pat] else Inr [])"

section \<open>Unique destination paths\<close>

datatype parser_error = TooManyVersions string

text \<open>
  The versioning loop of \<open>GetUniqueDestinationPath\<close>: \<open>version\<close> starts at 2 and the
  loop gives up once it has been incremented past 1000.
\<close>

function versionLoop ::
  "os_env \<Rightarrow> string \<Rightarrow> string \<Rightarrow> string \<Rightarrow> string \<Rightarrow> int \<Rightarrow> parser_error + string" where
  "versionLoop env destPath dir nameWithoutExt ext version =
     (let versionedName = nameWithoutExt @ ''_v'' @ showInt version @ ext;
          versionedPath = Join [dir, versionedName]
      in case Glob env versionedPath of
           Inr _ \<Rightarrow> Inr versionedPath
         | Inl _ \<Rightarrow> if version + 1 > 1000 then Inl (TooManyVersions destPath)
                    else versionLoop env destPath dir nameWithoutExt ext (version + 1))"
  by pat_completeness auto
termination
  by (relation "measure (\<lambda>(env, destPath, dir, nameWithoutExt, ext, version). nat (1001 - version))") auto

declare versionLoop.simps [simp del]

definition GetUniqueDestinationPath :: "Parser \<Rightarrow> os_env \<Rightarrow> FileInfo \<Rightarrow> parser_error + string" where
  "GetUniqueDestinationPath p env info =
     (let destPath = GetFullDestinationPath p info
      in case Glob env destPath of
           Inr _ \<Rightarrow> Inr destPath
         | Inl _ \<Rightarrow> let dir = Dir destPath;
                        ext = Ext destPath;
                        nameWithoutExt = TrimSuffix (Base destPath) ext
                    in versionLoop env destPath dir nameWithoutExt ext 2)"

section \<open>Transfer engine\<close>

text \<open>
  The records of package \<open>transfer\<close>, without the timestamp and the lock of the
  statistics.  The field \<open>FileInfo\<close> of a job is called \<open>Info\<close> here, since
  \<open>FileInfo\<close> names the record of the parser.
\<close>

record FileTransfer =
  SourcePath :: string
  DestinationPath :: string
  Info :: FileInfo
  Size :: int
  Priority :: bool
  Checksum :: string

record TransferStats =
  TotalFiles :: int
  ProcessedFiles :: int
  TotalBytes :: int
  TransferredBytes :: int
  FailedFiles :: int
  SkippedFiles :: int

record Manager =
  config :: Config
  parser :: Parser
  stats :: TransferStats

datatype transfer_error =
    MkdirError
  | OpenError
  | CreateError
  | CopyError
  | VerifyError
  | ChecksumMismatch

definition newStats :: TransferStats where
  "newStats = \<lparr>TotalFiles = 0, ProcessedFiles = 0, TotalBytes = 0, TransferredBytes = 0,
                FailedFiles = 0, SkippedFiles = 0\<rparr>"

text \<open>\<open>isPriorityFile\<close>: the loop over the configured prefixes, with its early return.\<close>

fun hasPriorityPrefix :: "string list \<Rightarrow> string \<Rightarrow> bool" where
  "hasPriorityPrefix [] fileName = False"
| "hasPriorityPrefix (pre # rest) fileName =
     (if length fileName \<ge> length pre \<and> take (length pre) fileName = pre then True
      else hasPriorityPrefix rest fileName)"

definition isPriorityFile :: "Manager \<Rightarrow> string \<Rightarrow> bool" where
  "isPriorityFile m fileName =
     hasPriorityPrefix (PriorityPrefixes (Transfer (Manager.config m))) fileName"

text \<open>
  \<open>transferFile\<close> on a store of destination files (path to content).  Every early
  return of the source is a branch; \<open>os.Create\<close> truncates, and \<open>os.Remove\<close>
  deletes the entry.
\<close>

type_synonym store = "string \<rightharpoonup> bytes"

definition transferFile ::
  "Manager \<Rightarrow> os_env \<Rightarrow> store \<Rightarrow> FileTransfer \<Rightarrow> transfer_error option \<times> store" where
  "transferFile m env st t =
     (let dest = FileTransfer.DestinationPath t;
          destDir = Dir dest
      in if mkdir_fails env destDir then (Some MkdirError, st)
         else if open_fails env (SourcePath t) then (Some OpenError, st)
         else if create_fails env dest then (Some CreateError, st)
         else if VerifyChecksums (Transfer (Manager.config m)) then
           (case io_copy env (SourcePath t) of
              CopyFailed part \<Rightarrow> (Some CopyError, st(dest \<mapsto> stored env dest part))
            | Copied data \<Rightarrow>
                let srcChecksum = sha256hex env data;
                    onDisk = stored env dest data
                in if reread_fails env dest then (Some VerifyError, st(dest \<mapsto> onDisk))
                   else let destChecksum = sha256hex env onDisk
                        in if srcChecksum \<noteq> destChecksum
                           then (Some ChecksumMismatch, st(dest := None))
                           else (None, st(dest \<mapsto> onDisk)))
         else
           (case io_copy env (SourcePath t) of
              CopyFailed part \<Rightarrow> (Some CopyError, st(dest \<mapsto> stored env dest part))
            | Copied data \<Rightarrow> (None, st(dest \<mapsto> stored env dest data))))"

text \<open>
  The first loop of \<open>TransferFiles\<close>: one iteration per discovered path.  A path that
  cannot be read, a directory, and a file without a destination are skipped with
  \<open>continue\<close>, before any counter is touched.
\<close>

type_synonym prepared = "TransferStats \<times> FileTransfer list \<times> FileTransfer list"

definition prepareFile :: "Manager \<Rightarrow> os_env \<Rightarrow> prepared \<Rightarrow> string \<Rightarrow> prepared" where
  "prepareFile m env acc filePath =
     (case acc of (st, priorityFiles, normalFiles) \<Rightarrow>
        (case os_Stat env filePath of
           None \<Rightarrow> acc
         | Some fileInfo \<Rightarrow>
             if IsDir fileInfo then acc
             else let parsedInfo = Parse (parser m) filePath
                  in case GetUniqueDestinationPath (parser m) env parsedInfo of
                       Inl _ \<Rightarrow> acc
                     | Inr destPath \<Rightarrow>
                         let transfer = \<lparr>SourcePath = filePath, DestinationPath = destPath,
                                         Info = parsedInfo, Size = StatSize fileInfo,
                                         Priority = isPriorityFile m (Base filePath),
                                         Checksum = []\<rparr>;
                             st' = st\<lparr>TotalFiles := TotalFiles st + 1,
                                      TotalBytes := add64 (TotalBytes st) (Size transfer)\<rparr>
                         in if Priority transfer
                            then (st', priorityFiles @ [transfer], normalFiles)
                            else (st', priorityFiles, normalFiles @ [transfer])))"

definition prepare :: "Manager \<Rightarrow> os_env \<Rightarrow> string list \<Rightarrow> prepared" where
  "prepare m env files = foldl (prepareFile m env) (newStats, [], []) files"

text \<open>The jobs in the order in which they are sent into the channel.\<close>

definition enqueued :: "Manager \<Rightarrow> os_env \<Rightarrow> string list \<Rightarrow> FileTransfer list" where
  "enqueued m env files =
     (case prepare m env files of (st, priorityFiles, normalFiles) \<Rightarrow> priorityFiles @ normalFiles)"

text \<open>
  One iteration of \<open>worker\<close>: the job is transferred, its result is sent, and the
  counters are updated inside the critical section.  The pool is modelled by the
  schedule in which the jobs complete in the order in which they were enqueued, which
  is the behaviour of a single worker; the counters are sums and do not depend on the
  order in which several workers complete.  Without a worker nothing is received.
\<close>

type_synonym pool = "TransferStats \<times> store \<times> transfer_error option list"

definition workerStep :: "Manager \<Rightarrow> os_env \<Rightarrow> pool \<Rightarrow> FileTransfer \<Rightarrow> pool" where
  "workerStep m env acc transfer =
     (case acc of (st, files, results) \<Rightarrow>
        (case transferFile m env files transfer of (err, files') \<Rightarrow>
           (st\<lparr>ProcessedFiles := ProcessedFiles st + 1,
               TransferredBytes := (if err = None then add64 (TransferredBytes st) (Size transfer)
                                    else TransferredBytes st)\<rparr>,
            files', results @ [err])))"

definition worker :: "Manager \<Rightarrow> os_env \<Rightarrow> pool \<Rightarrow> FileTransfer list \<Rightarrow> pool" where
  "worker m env acc jobs = foldl (workerStep m env) acc jobs"

definition runPool :: "Manager \<Rightarrow> os_env \<Rightarrow> pool \<Rightarrow> FileTransfer list \<Rightarrow> pool" where
  "runPool m env acc jobs =
     (if MaxWorkers (Transfer (Manager.config m)) \<le> 0 then acc else worker m env acc jobs)"

text \<open>The last loop of \<open>TransferFiles\<close>: every non-nil result counts as a failed file.\<close>

definition collectStep :: "TransferStats \<Rightarrow> transfer_error option \<Rightarrow> TransferStats" where
  "collectStep st err = (if err \<noteq> None then st\<lparr>FailedFiles := FailedFiles st + 1\<rparr> else st)"

definition collect :: "TransferStats \<Rightarrow> transfer_error option list \<Rightarrow> TransferStats" where
  "collect st results = foldl collectStep st results"

text \<open>
  \<open>TransferFiles\<close> returns the error value, the manager with the statistics of the
  run, and the destination store.
\<close>

definition TransferFiles ::
  "Manager \<Rightarrow> os_env \<Rightarrow> store \<Rightarrow> string list \<Rightarrow> transfer_error option \<times> Manager \<times> store" where
  "TransferFiles m env files0 files =
     (case prepare m env files of (st1, priorityFiles, normalFiles) \<Rightarrow>
        (case runPool m env (st1, files0, []) (priorityFiles @ normalFiles) of
           (st2, files1, results) \<Rightarrow> (None, m\<lparr>stats := collect st2 results\<rparr>, files1)))"

definition GetStats :: "Manager \<Rightarrow> TransferStats" where
  "GetStats m = stats m"

section \<open>Device lifecycle\<close>

record Device =
  Name :: string
  Path :: string
  MountPath :: string
  Filesystem :: string
  DeviceSize :: int
  Label :: string

record DeviceManager =
  dconfig :: Config
  dparser :: Parser

text \<open>
  \<open>strings.EqualFold\<close> compares two UTF-8 strings under the simple case folding of
  Unicode.  It reads both strings byte by byte for as long as the bytes are ASCII: two
  such bytes agree when they are equal or are the two cases of one of the letters A to
  Z, and two strings of ASCII bytes are equal under folding when they have the same
  length and agree at every position.  At the first byte outside ASCII it turns to the
  folding tables of the Go library; the outcome on such text is a parameter of the
  model: \<open>unicodeFold s t\<close> stands for \<open>strings.EqualFold(s, t)\<close> on strings that
  are not both ASCII.
\<close>

type_synonym fold_equality = "string \<Rightarrow> string \<Rightarrow> bool"

definition toLower :: "char \<Rightarrow> char" where
  "toLower c = (let n = (of_char c :: nat) in if 65 \<le> n \<and> n \<le> 90 then char_of (n + 32) else c)"

definition isASCII :: "string \<Rightarrow> bool" where
  "isASCII s = list_all (\<lambda>c. (of_char c :: nat) < 128) s"

definition EqualFold :: "fold_equality \<Rightarrow> string \<Rightarrow> string \<Rightarrow> bool" where
  "EqualFold unicodeFold s t =
     (if isASCII s \<and> isASCII t then map toLower s = map toLower t else unicodeFold s t)"

fun filesystemAllowed :: "fold_equality \<Rightarrow> string \<Rightarrow> string list \<Rightarrow> bool" where
  "filesystemAllowed unicodeFold filesystem [] = False"
| "filesystemAllowed unicodeFold filesystem (fs # rest) =
     (if EqualFold unicodeFold filesystem fs \<or> filesystem = fs then True
      else filesystemAllowed unicodeFold filesystem rest)"

fun pathExcluded :: "string \<Rightarrow> string list \<Rightarrow> bool" where
  "pathExcluded path [] = False"
| "pathExcluded path (pat # rest) =
     (if Contains path pat then True else pathExcluded path rest)"

definition IsAllowedDevice :: "fold_equality \<Rightarrow> DeviceManager \<Rightarrow> Device \<Rightarrow> bool" where
  "IsAllowedDevice unicodeFold m device =
     (let dc = DeviceDetection (dconfig m)
      in if DeviceSize device < MinSizeBytes dc then False
         else if length (AllowedFilesystems dc) > 0
                 \<and> \<not> filesystemAllowed unicodeFold (Filesystem device) (AllowedFilesystems dc)
              then False
         else if pathExcluded (Path device) (ExcludePatterns dc) then False
         else True)"

datatype device_error = ScanFailed scan_error | TransferFailed transfer_error

text \<open>
  \<open>ProcessDevice\<close>: the files under the mount path are listed and handed to a fresh
  transfer manager; the result is the error value returned to the caller.  The entry in
  the set of active devices and the calls of the logger have no part in that value.
\<close>

definition ProcessDevice ::
  "DeviceManager \<Rightarrow> os_env \<Rightarrow> store \<Rightarrow> Device \<Rightarrow> device_error option \<times> store" where
  "ProcessDevice m env files0 device =
     (case walk env (MountPath device) of
        Inl e \<Rightarrow> (Some (ScanFailed e), files0)
      | Inr files \<Rightarrow>
          if length files = 0 then (None, files0)
          else let transferMgr = \<lparr>config = dconfig m, parser = dparser m, stats = newStats\<rparr>
               in case TransferFiles transferMgr env files0 files of
                    (Some e, m', files1) \<Rightarrow> (Some (TransferFailed e), files1)
                  | (None, m', files1) \<Rightarrow> (None, files1))"

section \<open>Reference configuration\<close>

text \<open>
  The configuration of the repository's tests: the pattern
  \<open>^([^_]+)_([^_]+)_(ACam|BCam|CCam)_(.+)$\<close> in compiled form, the folder template,
  the fallback folder and the destination root.
\<close>

definition refRegex :: regex where
  "refRegex =
     Cat BeginText (Cat (Group 1 (Plus (NoneOf ''_''))) (Cat (Lit ''_'')
     (Cat (Group 2 (Plus (NoneOf ''_''))) (Cat (Lit ''_'')
     (Cat (Group 3 (Alt (Lit ''ACam'') (Alt (Lit ''BCam'') (Lit ''CCam'')))) (Cat (Lit ''_'')
     (Cat (Group 4 (Plus AnyChar)) EndText)))))))"

definition refConfig :: Config where
  "refConfig =
     \<lparr>Config.DestinationPath = ''/mnt/storage'',
      Transfer = \<lparr>MaxWorkers = 2, BufferSize = 1024, VerifyChecksums = True, MaxRetries = 3,
                  PriorityPrefixes = [''1_'', ''urgent_'']\<rparr>,
      Parsing = \<lparr>Pattern = ''^([^_]+)_([^_]+)_(ACam|BCam|CCam)_(.+)$'',
                 FolderStructure = ''{client}/{project}/{camera}'',
                 UnmatchedFolder = ''Unsorted''\<rparr>,
      Email = \<lparr>EmailEnabled = False, SMTPHost = [], SMTPPort = 0, To = []\<rparr>,
      DeviceDetection = \<lparr>MinSizeBytes = 1048576, AllowedFilesystems = [''vfat'', ''exfat''],
                         ExcludePatterns = [''loop'']\<rparr>\<rparr>"

definition refParser :: Parser where
  "refParser = \<lparr>pattern = refRegex, Parser.config = refConfig\<rparr>"

definition refManager :: Manager where
  "refManager = \<lparr>config = refConfig, parser = refParser, stats = newStats\<rparr>"

definition refDeviceManager :: DeviceManager where
  "refDeviceManager = \<lparr>dconfig = refConfig, dparser = refParser\<rparr>"

text \<open>A manager that differs from the reference one in its priority prefixes only.\<close>

definition withPrefixes :: "string list \<Rightarrow> Manager" where
  "withPrefixes ps =
     refManager\<lparr>config := refConfig\<lparr>Transfer := (Transfer refConfig)\<lparr>PriorityPrefixes := ps\<rparr>\<rparr>\<rparr>"

text \<open>A card reader with a FAT volume of 32 GB.\<close>

definition sdCard :: Device where
  "sdCard = \<lparr>Name = ''sdb1'', Path = ''/dev/sdb1'', MountPath = ''/media/sdb1'',
             Filesystem = ''VFAT'', DeviceSize = 32000000000, Label = ''CARD''\<rparr>"

text \<open>
  The device names and filesystems of the examples are ASCII; there the outcome of the
  folding tables is never consulted.
\<close>

definition noUnicodeFold :: fold_equality where
  "noUnicodeFold s t = False"

text \<open>
  A name that \<open>filepath.Join\<close> keeps as the last element of a path: not empty, free of
  separators, and neither \<open>.\<close> nor \<open>..\<close>.  The name of every directory entry is one.
\<close>

definition isPathElement :: "string \<Rightarrow> bool" where
  "isPathElement n = (n \<noteq> [] \<and> CHR ''/'' \<notin> set n \<and> n \<noteq> ''.'' \<and> n \<noteq> ''..'')"

text \<open>Three files as a scan of a card returns them: one unmatched, one urgent, one matched.\<close>

definition cardFiles :: "string list" where
  "cardFiles =
     [''/media/sdb1/random_video.mp4'',
      ''/media/sdb1/1_Project_Client_ACam_001.mp4'',
      ''/media/sdb1/BrandVideo_Nike_ACam_001.mp4'']"

text \<open>
  An environment in which every file operation succeeds: each path is a regular file of
  ten bytes, a walk lists the three files of the card, the destination tree is empty,
  nothing is corrupted, and the digest is injective.  Glob reports a pattern with an opening bracket and no closing one as
  malformed, as Go does for a character class that is never closed.
\<close>

definition quietEnv :: os_env where
  "quietEnv =
     \<lparr>os_Stat = (\<lambda>p. Some \<lparr>IsDir = False, StatSize = 10\<rparr>),
      os_Lstat = (\<lambda>p. False),
      glob_meta = (\<lambda>p. if CHR ''['' \<in> set p \<and> CHR '']'' \<notin> set p
                         then Inl ErrBadPattern else Inr []),
      walk = (\<lambda>p. Inr cardFiles),
      mkdir_fails = (\<lambda>p. False),
      open_fails = (\<lambda>p. False),
      create_fails = (\<lambda>p. False),
      io_copy = (\<lambda>p. Copied ''0123456789''),
      stored = (\<lambda>p data. data),
      reread_fails = (\<lambda>p. False),
      sha256hex = (\<lambda>data. data)\<rparr>"

text \<open>The same environment with one file already present in the fallback folder.\<close>

definition occupiedEnv :: os_env where
  "occupiedEnv = quietEnv\<lparr>os_Lstat := (\<lambda>p. p = ''/mnt/storage/Unsorted/random_video.mp4'')\<rparr>"

text \<open>The same environment with a destination medium that returns other bytes than were written.\<close>

definition corruptingEnv :: os_env where
  "corruptingEnv = quietEnv\<lparr>stored := (\<lambda>p data. ''garbage'')\<rparr>"

text \<open>The same environment in which no source file can be opened.\<close>

definition unreadableEnv :: os_env where
  "unreadableEnv = quietEnv\<lparr>open_fails := (\<lambda>p. True)\<rparr>"

text \<open>The same environment in which the walk over the mount path fails.\<close>

definition unscannableEnv :: os_env where
  "unscannableEnv = quietEnv\<lparr>walk := (\<lambda>p. Inl WalkError)\<rparr>"

text \<open>Managers that differ from the reference one in a single transfer setting.\<close>

definition withWorkers :: "int \<Rightarrow> Manager" where
  "withWorkers n =
     refManager\<lparr>config := refConfig\<lparr>Transfer := (Transfer refConfig)\<lparr>MaxWorkers := n\<rparr>\<rparr>\<rparr>"

definition withoutVerification :: Manager where
  "withoutVerification =
     refManager\<lparr>config := refConfig\<lparr>Transfer := (Transfer refConfig)\<lparr>VerifyChecksums := False\<rparr>\<rparr>\<rparr>"

definition exampleJob :: FileTransfer where
  "exampleJob =
     \<lparr>SourcePath = ''/media/sdb1/BrandVideo_Nike_ACam_001.mp4'',
      DestinationPath = ''/mnt/storage/Nike/BrandVideo/ACam/001.mp4'',
      Info = Parse refParser ''/media/sdb1/BrandVideo_Nike_ACam_001.mp4'',
      Size = 10, Priority = False, Checksum = []\<rparr>"

section \<open>Observations of a run\<close>

text \<open>
  The statistics when dispatch starts, the results that the workers send, and the
  statistics that \<open>GetStats\<close> returns once \<open>TransferFiles\<close> has returned.
\<close>

definition statsAtDispatch :: "Manager \<Rightarrow> os_env \<Rightarrow> string list \<Rightarrow> TransferStats" where
  "statsAtDispatch m env files = fst (prepare m env files)"

definition poolResults ::
  "Manager \<Rightarrow> os_env \<Rightarrow> store \<Rightarrow> string list \<Rightarrow> transfer_error option list" where
  "poolResults m env files0 files =
     snd (snd (runPool m env (statsAtDispatch m env files, files0, []) (enqueued m env files)))"

definition finalStats :: "Manager \<Rightarrow> os_env \<Rightarrow> store \<Rightarrow> string list \<Rightarrow> TransferStats" where
  "finalStats m env files0 files = GetStats (fst (snd (TransferFiles m env files0 files)))"

text \<open>
  The statistics at the intermediate points of a run.  Each of the three loops of
  \<open>TransferFiles\<close> is a left fold, so its state after \<open>k\<close> iterations is the fold
  over the first \<open>k\<close> items: the snapshots are these states for every \<open>k\<close>, loop
  after loop.
\<close>

definition classifySnapshots :: "Manager \<Rightarrow> os_env \<Rightarrow> string list \<Rightarrow> TransferStats list" where
  "classifySnapshots m env files =
     map (\<lambda>k. fst (prepare m env (take k files))) [0 ..< Suc (length files)]"

definition poolSnapshots ::
  "Manager \<Rightarrow> os_env \<Rightarrow> store \<Rightarrow> string list \<Rightarrow> TransferStats list" where
  "poolSnapshots m env files0 files =
     map (\<lambda>k. fst (runPool m env (statsAtDispatch m env files, files0, [])
                      (take k (enqueued m env files))))
         [0 ..< Suc (length (enqueued m env files))]"

definition collectSnapshots ::
  "Manager \<Rightarrow> os_env \<Rightarrow> store \<Rightarrow> string list \<Rightarrow> TransferStats list" where
  "collectSnapshots m env files0 files =
     map (\<lambda>k. collect (last (poolSnapshots m env files0 files))
                       (take k (poolResults m env files0 files)))
         [0 ..< Suc (length (poolResults m env files0 files))]"

definition snapshots ::
  "Manager \<Rightarrow> os_env \<Rightarrow> store \<Rightarrow> string list \<Rightarrow> TransferStats list" where
  "snapshots m env files0 files =
     classifySnapshots m env files @ poolSnapshots m env files0 files
       @ collectSnapshots m env files0 files"

text \<open>The invariant of the classification loop of \<open>TransferFiles\<close>.\<close>

definition preparedInv :: "Manager \<Rightarrow> prepared \<Rightarrow> bool" where
  "preparedInv m acc =
     (case acc of (st, ps, ns) \<Rightarrow>
        list_all Priority ps \<and> list_all (\<lambda>t. \<not> Priority t) ns \<and>
        list_all (\<lambda>t. Priority t = isPriorityFile m (Base (SourcePath t))) (ps @ ns) \<and>
        TotalFiles st = int (length ps) + int (length ns) \<and>
        ProcessedFiles st = 0 \<and> FailedFiles st = 0)"

text \<open>A looser convention with four groups: \<open>^(.*)_(.*)_(.*)_(.*)$\<close>.\<close>

definition looseRegex :: regex where
  "looseRegex =
     Cat BeginText (Cat (Group 1 (Star AnyChar)) (Cat (Lit ''_'')
     (Cat (Group 2 (Star AnyChar)) (Cat (Lit ''_'')
     (Cat (Group 3 (Star AnyChar)) (Cat (Lit ''_'')
     (Cat (Group 4 (Star AnyChar)) EndText)))))))"

definition looseParser :: Parser where
  "looseParser = \<lparr>pattern = looseRegex, Parser.config = refConfig\<rparr>"

text \<open>
  Whether an iteration of the classification loop of \<open>TransferFiles\<close> reaches the
  point where the job is created: the path can be read, is not a directory, and has a
  destination.
\<close>

definition createsJob :: "Manager \<Rightarrow> os_env \<Rightarrow> string \<Rightarrow> bool" where
  "createsJob m env filePath =
     (case os_Stat env filePath of
        None \<Rightarrow> False
      | Some fileInfo \<Rightarrow>
          \<not> IsDir fileInfo \<and>
          (case GetUniqueDestinationPath (parser m) env (Parse (parser m) filePath) of
             Inl _ \<Rightarrow> False | Inr _ \<Rightarrow> True))"

section \<open>Priority prefixes\<close>

lemma hasPriorityPrefix_iff:
  "hasPriorityPrefix ps n \<longleftrightarrow> (\<exists>pre\<in>set ps. prefix pre n)"
proof (induction ps)
  case Nil
  show ?case by simp
next
  case (Cons a ps)
  have "(length a \<le> length n \<and> take (length a) n = a) \<longleftrightarrow> prefix a n"
    by (metis prefix_length_le take_is_prefix append_eq_conv_conj prefix_def)
  with Cons show ?case by auto
qed

text \<open>
  C10.  With an empty list of priority prefixes \<open>isPriorityFile\<close> is false for every
  file name, and with a list that contains the empty string it is true for every file
  name.
\<close>

theorem isPriorityFile_degenerate_prefix_lists:
  "(PriorityPrefixes (Transfer (Manager.config m)) = [] \<longrightarrow> \<not> isPriorityFile m fileName) \<and>
   ([] \<in> set (PriorityPrefixes (Transfer (Manager.config m))) \<longrightarrow> isPriorityFile m fileName)"
  unfolding isPriorityFile_def hasPriorityPrefix_iff
  by (auto intro: bexI[where x="[]"])

theorem isPriorityFile_degenerate_prefix_lists_witness:
  "\<not> isPriorityFile (withPrefixes []) ''1_Project_Client_ACam_001.mp4'' \<and>
   isPriorityFile (withPrefixes [''1_'', []]) ''normal_file.mp4''"
  using isPriorityFile_degenerate_prefix_lists[of "withPrefixes []" "''1_Project_Client_ACam_001.mp4''"]
        isPriorityFile_degenerate_prefix_lists[of "withPrefixes [''1_'', []]" "''normal_file.mp4''"]
  by (simp add: withPrefixes_def refManager_def refConfig_def)

section \<open>Device inclusion policy\<close>

lemma Contains_iff: "Contains s sub \<longleftrightarrow> (\<exists>xs ys. s = xs @ sub @ ys)"
proof (induction s)
  case Nil
  show ?case by auto
next
  case (Cons c cs)
  have a: "take (length sub) (c # cs) = sub \<longleftrightarrow> (\<exists>ys. c # cs = sub @ ys)"
    by (metis append_eq_conv_conj append_take_drop_id)
  show ?case
  proof
    assume "Contains (c # cs) sub"
    then consider "take (length sub) (c # cs) = sub" | "Contains cs sub" by auto
    then show "\<exists>xs ys. c # cs = xs @ sub @ ys"
    proof cases
      case 1
      then obtain ys where "c # cs = sub @ ys" using a by blast
      then have "c # cs = [] @ sub @ ys" by simp
      then show ?thesis by blast
    next
      case 2
      then obtain xs ys where "cs = xs @ sub @ ys" using Cons by blast
      then have "c # cs = (c # xs) @ sub @ ys" by simp
      then show ?thesis by blast
    qed
  next
    assume "\<exists>xs ys. c # cs = xs @ sub @ ys"
    then obtain xs ys where e: "c # cs = xs @ sub @ ys" by blast
    show "Contains (c # cs) sub"
    proof (cases xs)
      case Nil
      with e have "c # cs = sub @ ys" by simp
      with a have "take (length sub) (c # cs) = sub" by blast
      then show ?thesis by simp
    next
      case (Cons x xs')
      with e have "cs = xs' @ sub @ ys" by simp
      then have "Contains cs sub" using Cons.IH by blast
      then show ?thesis by simp
    qed
  qed
qed

lemma filesystemAllowed_iff:
  "filesystemAllowed unicodeFold f fss \<longleftrightarrow>
     (\<exists>fs\<in>set fss. EqualFold unicodeFold f fs \<or> f = fs)"
  by (induction fss) auto

lemma pathExcluded_iff:
  "pathExcluded p pats \<longleftrightarrow> (\<exists>pat\<in>set pats. Contains p pat)"
  by (induction pats) auto

text \<open>
  C8.  \<open>IsAllowedDevice\<close> rejects a device exactly when its size is below the
  configured minimum, or an allow-list of filesystems is configured and the device's
  filesystem equals none of its entries under \<open>strings.EqualFold\<close> (nor exactly), or
  the device's path contains one of the configured exclude substrings; otherwise it
  accepts.  On ASCII text \<open>strings.EqualFold\<close> is equality up to the case of the
  letters A to Z.  The function returns the verdict and nothing else: it has no state
  to change.
\<close>

theorem IsAllowedDevice_policy:
  "(IsAllowedDevice unicodeFold m device \<longleftrightarrow>
     \<not> (DeviceSize device < MinSizeBytes (DeviceDetection (dconfig m))
        \<or> (AllowedFilesystems (DeviceDetection (dconfig m)) \<noteq> []
            \<and> \<not> (\<exists>fs\<in>set (AllowedFilesystems (DeviceDetection (dconfig m))).
                     EqualFold unicodeFold (Filesystem device) fs \<or> Filesystem device = fs))
        \<or> (\<exists>pat\<in>set (ExcludePatterns (DeviceDetection (dconfig m))).
              \<exists>xs ys. Path device = xs @ pat @ ys)))
   \<and> (isASCII s \<and> isASCII t \<longrightarrow>
         EqualFold unicodeFold s t = (map toLower s = map toLower t))"
  unfolding IsAllowedDevice_def Let_def filesystemAllowed_iff pathExcluded_iff Contains_iff
  by (auto simp: EqualFold_def)

theorem IsAllowedDevice_policy_witness:
  "IsAllowedDevice noUnicodeFold refDeviceManager sdCard \<and>
   \<not> IsAllowedDevice noUnicodeFold refDeviceManager (sdCard\<lparr>Path := ''/dev/loop0''\<rparr>) \<and>
   \<not> IsAllowedDevice noUnicodeFold refDeviceManager (sdCard\<lparr>Filesystem := ''NTFS''\<rparr>) \<and>
   isASCII ''VFAT'' \<and> isASCII ''vfat'' \<and> EqualFold noUnicodeFold ''VFAT'' ''vfat''"
proof -
  have a: "\<not> Contains ''/dev/sdb1'' ''loop''" by code_simp
  have b: "EqualFold noUnicodeFold ''VFAT'' ''vfat''" by code_simp
  have c: "Contains ''/dev/loop0'' ''loop''" by code_simp
  have e: "\<not> EqualFold noUnicodeFold ''NTFS'' ''vfat''" "\<not> EqualFold noUnicodeFold ''NTFS'' ''exfat''"
    by code_simp+
  have f: "isASCII ''VFAT''" "isASCII ''vfat''" "map toLower ''VFAT'' = map toLower ''vfat''"
    by code_simp+
  have d: "DeviceDetection (dconfig refDeviceManager) =
             \<lparr>MinSizeBytes = 1048576, AllowedFilesystems = [''vfat'', ''exfat''],
              ExcludePatterns = [''loop'']\<rparr>"
    by (simp add: refDeviceManager_def refConfig_def)
  have "IsAllowedDevice noUnicodeFold refDeviceManager sdCard"
    using IsAllowedDevice_policy[of noUnicodeFold refDeviceManager sdCard] a[unfolded Contains_iff] b
    unfolding d by (simp add: sdCard_def)
  moreover have "\<not> IsAllowedDevice noUnicodeFold refDeviceManager (sdCard\<lparr>Path := ''/dev/loop0''\<rparr>)"
    using IsAllowedDevice_policy[of noUnicodeFold refDeviceManager "sdCard\<lparr>Path := ''/dev/loop0''\<rparr>"]
      c[unfolded Contains_iff]
    unfolding d by (simp add: sdCard_def)
  moreover have "\<not> IsAllowedDevice noUnicodeFold refDeviceManager (sdCard\<lparr>Filesystem := ''NTFS''\<rparr>)"
    using IsAllowedDevice_policy[of noUnicodeFold refDeviceManager "sdCard\<lparr>Filesystem := ''NTFS''\<rparr>"] e
    unfolding d by (simp add: sdCard_def)
  moreover have "EqualFold noUnicodeFold ''VFAT'' ''vfat''"
    using IsAllowedDevice_policy[of noUnicodeFold refDeviceManager sdCard "''VFAT''" "''vfat''"] f
    by simp
  ultimately show ?thesis using f by simp
qed

section \<open>Determinism of classification\<close>

text \<open>
  C9.  Classification is a function of the base name of the path and of the parser (its
  pattern and configuration) alone: two paths with the same base name are parsed into
  the same match flag, tokens, file name and extension, and resolve to the same
  destination directory and the same full destination path.  \<open>Parse\<close> and the
  path functions take no environment: they read nothing else.
\<close>

theorem Parse_depends_on_base_name_only:
  assumes "Base path1 = Base path2"
  shows "Parse p path1 = (Parse p path2)\<lparr>OriginalPath := path1\<rparr>
       \<and> GetDestinationPath p (Parse p path1) = GetDestinationPath p (Parse p path2)
       \<and> GetFullDestinationPath p (Parse p path1) = GetFullDestinationPath p (Parse p path2)"
  using assms unfolding Parse_def GetFullDestinationPath_def GetDestinationPath_def Let_def
  by simp

theorem Parse_depends_on_base_name_only_witness:
  "Base ''/media/sdb1/DCIM/BrandVideo_Nike_ACam_001.mp4'' = Base ''/media/sdc1/BrandVideo_Nike_ACam_001.mp4'' \<and>
   Parse refParser ''/media/sdb1/DCIM/BrandVideo_Nike_ACam_001.mp4'' =
     (Parse refParser ''/media/sdc1/BrandVideo_Nike_ACam_001.mp4'')\<lparr>OriginalPath := ''/media/sdb1/DCIM/BrandVideo_Nike_ACam_001.mp4''\<rparr> \<and>
   GetFullDestinationPath refParser (Parse refParser ''/media/sdb1/DCIM/BrandVideo_Nike_ACam_001.mp4'') =
     GetFullDestinationPath refParser (Parse refParser ''/media/sdc1/BrandVideo_Nike_ACam_001.mp4'')"
proof -
  have b: "Base ''/media/sdb1/DCIM/BrandVideo_Nike_ACam_001.mp4'' = Base ''/media/sdc1/BrandVideo_Nike_ACam_001.mp4''"
    by code_simp
  note t = Parse_depends_on_base_name_only[OF b, of refParser]
  show ?thesis
    by (intro conjI) (rule b, rule conjunct1[OF t], rule conjunct2[OF conjunct2[OF t]])
qed

section \<open>Integrity verification\<close>

text \<open>
  C7.  For a job whose directory, source and destination could be opened and whose copy
  completed: with verification enabled, if the destination could be read back and the
  digest of the source differs from the digest of what was read back, \<open>transferFile\<close>
  removes the destination and returns the checksum-mismatch error; with verification
  disabled it returns success and keeps whatever the medium stored, and its result does
  not depend on the digest function nor on whether the destination can be read back.
\<close>

theorem transferFile_verification:
  assumes "\<not> mkdir_fails env (Dir (FileTransfer.DestinationPath t))"
    and "\<not> open_fails env (SourcePath t)"
    and "\<not> create_fails env (FileTransfer.DestinationPath t)"
    and "io_copy env (SourcePath t) = Copied data"
  shows "(VerifyChecksums (Transfer (Manager.config m))
            \<and> \<not> reread_fails env (FileTransfer.DestinationPath t)
            \<and> sha256hex env data \<noteq> sha256hex env (stored env (FileTransfer.DestinationPath t) data)
          \<longrightarrow> transferFile m env st t
                = (Some ChecksumMismatch, st(FileTransfer.DestinationPath t := None)))
       \<and> (\<not> VerifyChecksums (Transfer (Manager.config m))
          \<longrightarrow> transferFile m env st t
                = (None, st(FileTransfer.DestinationPath t
                             \<mapsto> stored env (FileTransfer.DestinationPath t) data))
              \<and> transferFile m (env\<lparr>sha256hex := h, reread_fails := r\<rparr>) st t
                = transferFile m env st t)"
  using assms by (simp add: transferFile_def Let_def)


theorem transferFile_verification_witness:
  "transferFile refManager corruptingEnv Map.empty exampleJob
     = (Some ChecksumMismatch, Map.empty)
   \<and> transferFile withoutVerification corruptingEnv Map.empty exampleJob
     = (None, [''/mnt/storage/Nike/BrandVideo/ACam/001.mp4'' \<mapsto> ''garbage''])"
proof -
  have 1: "\<not> mkdir_fails corruptingEnv (Dir (FileTransfer.DestinationPath exampleJob))"
    and 2: "\<not> open_fails corruptingEnv (SourcePath exampleJob)"
    and 3: "\<not> create_fails corruptingEnv (FileTransfer.DestinationPath exampleJob)"
    and 4: "io_copy corruptingEnv (SourcePath exampleJob) = Copied ''0123456789''"
    by (simp_all add: corruptingEnv_def quietEnv_def)
  note t = transferFile_verification[OF 1 2 3 4]
  have v: "VerifyChecksums (Transfer (Manager.config refManager))"
    "\<not> VerifyChecksums (Transfer (Manager.config withoutVerification))"
    by (simp_all add: refManager_def withoutVerification_def refConfig_def)
  have e: "\<not> reread_fails corruptingEnv (FileTransfer.DestinationPath exampleJob)"
    "sha256hex corruptingEnv ''0123456789''
       \<noteq> sha256hex corruptingEnv (stored corruptingEnv (FileTransfer.DestinationPath exampleJob) ''0123456789'')"
    "stored corruptingEnv (FileTransfer.DestinationPath exampleJob) ''0123456789'' = ''garbage''"
    "FileTransfer.DestinationPath exampleJob = ''/mnt/storage/Nike/BrandVideo/ACam/001.mp4''"
    by (simp_all add: corruptingEnv_def quietEnv_def exampleJob_def)
  from t[of refManager Map.empty] v e
  have a: "transferFile refManager corruptingEnv Map.empty exampleJob = (Some ChecksumMismatch, Map.empty)"
    by simp
  from t[of withoutVerification Map.empty] v e
  have b: "transferFile withoutVerification corruptingEnv Map.empty exampleJob
     = (None, [''/mnt/storage/Nike/BrandVideo/ACam/001.mp4'' \<mapsto> ''garbage''])"
    by simp
  from a b show ?thesis by simp
qed

section \<open>Queue order and run statistics\<close>

lemma prepareFile_cases:
  "prepareFile m env (st, ps, ns) f = (st, ps, ns) \<or>
   (\<exists>t. SourcePath t = f \<and> Priority t = isPriorityFile m (Base f) \<and>
        (if Priority t
         then prepareFile m env (st, ps, ns) f
                = (st\<lparr>TotalFiles := TotalFiles st + 1, TotalBytes := add64 (TotalBytes st) (Size t)\<rparr>, ps @ [t], ns)
         else prepareFile m env (st, ps, ns) f
                = (st\<lparr>TotalFiles := TotalFiles st + 1, TotalBytes := add64 (TotalBytes st) (Size t)\<rparr>, ps, ns @ [t])))"
proof (cases "os_Stat env f")
  case None
  then show ?thesis by (simp add: prepareFile_def)
next
  case (Some fi)
  show ?thesis
  proof (cases "IsDir fi")
    case True
    with Some show ?thesis by (simp add: prepareFile_def)
  next
    case False
    show ?thesis
    proof (cases "GetUniqueDestinationPath (parser m) env (Parse (parser m) f)")
      case (Inl e)
      with Some False show ?thesis by (simp add: prepareFile_def)
    next
      case (Inr d)
      define t where "t = \<lparr>SourcePath = f, DestinationPath = d, Info = Parse (parser m) f,
                           Size = StatSize fi, Priority = isPriorityFile m (Base f), Checksum = []\<rparr>"
      have "SourcePath t = f" "Priority t = isPriorityFile m (Base f)" by (simp_all add: t_def)
      moreover have "if Priority t
         then prepareFile m env (st, ps, ns) f
                = (st\<lparr>TotalFiles := TotalFiles st + 1, TotalBytes := add64 (TotalBytes st) (Size t)\<rparr>, ps @ [t], ns)
         else prepareFile m env (st, ps, ns) f
                = (st\<lparr>TotalFiles := TotalFiles st + 1, TotalBytes := add64 (TotalBytes st) (Size t)\<rparr>, ps, ns @ [t])"
        using Some False Inr by (simp add: prepareFile_def Let_def t_def)
      ultimately show ?thesis by blast
    qed
  qed
qed

lemma prepareFile_inv:
  assumes "preparedInv m acc"
  shows "preparedInv m (prepareFile m env acc f)"
proof -
  obtain st ps ns where acc: "acc = (st, ps, ns)" by (cases acc) auto
  from prepareFile_cases[of m env st ps ns f] show ?thesis
  proof
    assume "prepareFile m env (st, ps, ns) f = (st, ps, ns)"
    with assms acc show ?thesis by simp
  next
    assume "\<exists>t. SourcePath t = f \<and> Priority t = isPriorityFile m (Base f) \<and>
        (if Priority t
         then prepareFile m env (st, ps, ns) f
                = (st\<lparr>TotalFiles := TotalFiles st + 1, TotalBytes := add64 (TotalBytes st) (Size t)\<rparr>, ps @ [t], ns)
         else prepareFile m env (st, ps, ns) f
                = (st\<lparr>TotalFiles := TotalFiles st + 1, TotalBytes := add64 (TotalBytes st) (Size t)\<rparr>, ps, ns @ [t]))"
    then obtain t where t: "SourcePath t = f" "Priority t = isPriorityFile m (Base f)"
      and r: "if Priority t
         then prepareFile m env (st, ps, ns) f
                = (st\<lparr>TotalFiles := TotalFiles st + 1, TotalBytes := add64 (TotalBytes st) (Size t)\<rparr>, ps @ [t], ns)
         else prepareFile m env (st, ps, ns) f
                = (st\<lparr>TotalFiles := TotalFiles st + 1, TotalBytes := add64 (TotalBytes st) (Size t)\<rparr>, ps, ns @ [t])"
      by blast
    show ?thesis
    proof (cases "Priority t")
      case True
      with r assms acc t show ?thesis by (simp add: preparedInv_def)
    next
      case False
      with r assms acc t show ?thesis by (simp add: preparedInv_def)
    qed
  qed
qed

lemma prepare_fold_inv:
  "preparedInv m acc \<Longrightarrow> preparedInv m (foldl (prepareFile m env) acc files)"
  by (induction files arbitrary: acc) (simp_all add: prepareFile_inv)

lemma prepare_inv: "preparedInv m (prepare m env files)"
  unfolding prepare_def by (rule prepare_fold_inv) (simp add: preparedInv_def newStats_def)


lemma worker_fold:
  "\<exists>files' rs.
     foldl (workerStep m env) (st, files, res) jobs
       = (fst (foldl (workerStep m env) (st, files, res) jobs), files', res @ rs)
     \<and> length rs = length jobs
     \<and> ProcessedFiles (fst (foldl (workerStep m env) (st, files, res) jobs))
         = ProcessedFiles st + int (length jobs)
     \<and> TotalFiles (fst (foldl (workerStep m env) (st, files, res) jobs)) = TotalFiles st
     \<and> FailedFiles (fst (foldl (workerStep m env) (st, files, res) jobs)) = FailedFiles st"
proof (induction jobs arbitrary: st files res)
  case Nil
  show ?case by simp
next
  case (Cons t jobs)
  obtain err files1 where tf: "transferFile m env files t = (err, files1)"
    by (cases "transferFile m env files t") auto
  define st1 where "st1 = st\<lparr>ProcessedFiles := ProcessedFiles st + 1,
      TransferredBytes := (if err = None then add64 (TransferredBytes st) (Size t) else TransferredBytes st)\<rparr>"
  have step: "workerStep m env (st, files, res) t = (st1, files1, res @ [err])"
    by (simp add: workerStep_def tf st1_def)
  from Cons.IH[of st1 files1 "res @ [err]"] obtain files' rs where
    ih: "foldl (workerStep m env) (st1, files1, res @ [err]) jobs
           = (fst (foldl (workerStep m env) (st1, files1, res @ [err]) jobs), files', (res @ [err]) @ rs)"
      "length rs = length jobs"
      "ProcessedFiles (fst (foldl (workerStep m env) (st1, files1, res @ [err]) jobs))
         = ProcessedFiles st1 + int (length jobs)"
      "TotalFiles (fst (foldl (workerStep m env) (st1, files1, res @ [err]) jobs)) = TotalFiles st1"
      "FailedFiles (fst (foldl (workerStep m env) (st1, files1, res @ [err]) jobs)) = FailedFiles st1"
    by blast
  have "foldl (workerStep m env) (st, files, res) (t # jobs)
          = (fst (foldl (workerStep m env) (st, files, res) (t # jobs)), files', res @ (err # rs))"
    using ih(1) step by simp
  moreover have "length (err # rs) = length (t # jobs)" using ih(2) by simp
  moreover have "ProcessedFiles (fst (foldl (workerStep m env) (st, files, res) (t # jobs)))
         = ProcessedFiles st + int (length (t # jobs))"
    using ih(3) step by (simp add: st1_def)
  moreover have "TotalFiles (fst (foldl (workerStep m env) (st, files, res) (t # jobs))) = TotalFiles st"
    using ih(4) step by (simp add: st1_def)
  moreover have "FailedFiles (fst (foldl (workerStep m env) (st, files, res) (t # jobs))) = FailedFiles st"
    using ih(5) step by (simp add: st1_def)
  ultimately show ?case by blast
qed

lemma collect_fields:
  "FailedFiles (collect st rs) = FailedFiles st + int (length (filter (\<lambda>e. e \<noteq> None) rs))
   \<and> ProcessedFiles (collect st rs) = ProcessedFiles st
   \<and> TotalFiles (collect st rs) = TotalFiles st"
  unfolding collect_def
  by (induction rs arbitrary: st) (simp_all add: collectStep_def)

lemma runPool_fields:
  "\<exists>files' rs.
     runPool m env (st, files, []) jobs = (fst (runPool m env (st, files, []) jobs), files', rs)
     \<and> ProcessedFiles (fst (runPool m env (st, files, []) jobs)) = ProcessedFiles st + int (length rs)
     \<and> TotalFiles (fst (runPool m env (st, files, []) jobs)) = TotalFiles st
     \<and> FailedFiles (fst (runPool m env (st, files, []) jobs)) = FailedFiles st
     \<and> length rs \<le> length jobs
     \<and> (1 \<le> MaxWorkers (Transfer (Manager.config m)) \<longrightarrow> length rs = length jobs)"
proof (cases "MaxWorkers (Transfer (Manager.config m)) \<le> 0")
  case True
  then show ?thesis by (simp add: runPool_def)
next
  case False
  from worker_fold[of m env st files "[]" jobs] obtain files' rs where
    w: "foldl (workerStep m env) (st, files, []) jobs
          = (fst (foldl (workerStep m env) (st, files, []) jobs), files', rs)"
       "length rs = length jobs"
       "ProcessedFiles (fst (foldl (workerStep m env) (st, files, []) jobs))
          = ProcessedFiles st + int (length jobs)"
       "TotalFiles (fst (foldl (workerStep m env) (st, files, []) jobs)) = TotalFiles st"
       "FailedFiles (fst (foldl (workerStep m env) (st, files, []) jobs)) = FailedFiles st"
    by auto
  have r: "runPool m env (st, files, []) jobs = foldl (workerStep m env) (st, files, []) jobs"
    using False by (simp add: runPool_def worker_def)
  show ?thesis unfolding r using w by (intro exI[of _ files'] exI[of _ rs]) simp
qed


lemma prepare_split:
  "prepare m env files = (statsAtDispatch m env files, fst (snd (prepare m env files)), snd (snd (prepare m env files)))
   \<and> enqueued m env files = fst (snd (prepare m env files)) @ snd (snd (prepare m env files))"
  by (cases "prepare m env files") (simp add: statsAtDispatch_def enqueued_def)

lemma statsAtDispatch_fields:
  "TotalFiles (statsAtDispatch m env files) = int (length (enqueued m env files))
   \<and> ProcessedFiles (statsAtDispatch m env files) = 0
   \<and> FailedFiles (statsAtDispatch m env files) = 0"
proof -
  obtain st ps ns where p: "prepare m env files = (st, ps, ns)" by (cases "prepare m env files") auto
  from prepare_inv[of m env files] p show ?thesis
    by (simp add: preparedInv_def statsAtDispatch_def enqueued_def)
qed

lemma finalStats_eq:
  "finalStats m env files0 files =
     collect (fst (runPool m env (statsAtDispatch m env files, files0, []) (enqueued m env files)))
             (poolResults m env files0 files)"
proof -
  obtain st ps ns where p: "prepare m env files = (st, ps, ns)" by (cases "prepare m env files") auto
  obtain st2 f1 rs where r: "runPool m env (st, files0, []) (ps @ ns) = (st2, f1, rs)"
    by (cases "runPool m env (st, files0, []) (ps @ ns)") auto
  show ?thesis
    by (simp add: finalStats_def GetStats_def TransferFiles_def poolResults_def
        statsAtDispatch_def enqueued_def p r)
qed

lemma TransferFiles_returns_nil: "fst (TransferFiles m env files0 files) = None"
  by (simp add: TransferFiles_def split: prod.splits)

lemma pool_fields:
  "ProcessedFiles (fst (runPool m env (statsAtDispatch m env files, files0, []) jobs))
     = int (length (snd (snd (runPool m env (statsAtDispatch m env files, files0, []) jobs))))
   \<and> TotalFiles (fst (runPool m env (statsAtDispatch m env files, files0, []) jobs))
     = int (length (enqueued m env files))
   \<and> FailedFiles (fst (runPool m env (statsAtDispatch m env files, files0, []) jobs)) = 0
   \<and> length (snd (snd (runPool m env (statsAtDispatch m env files, files0, []) jobs))) \<le> length jobs
   \<and> (1 \<le> MaxWorkers (Transfer (Manager.config m)) \<longrightarrow>
        length (snd (snd (runPool m env (statsAtDispatch m env files, files0, []) jobs))) = length jobs)"
proof -
  from runPool_fields[of m env "statsAtDispatch m env files" files0 jobs]
  obtain files' rs where
    r: "runPool m env (statsAtDispatch m env files, files0, []) jobs
          = (fst (runPool m env (statsAtDispatch m env files, files0, []) jobs), files', rs)"
    and f: "ProcessedFiles (fst (runPool m env (statsAtDispatch m env files, files0, []) jobs))
              = ProcessedFiles (statsAtDispatch m env files) + int (length rs)"
      "TotalFiles (fst (runPool m env (statsAtDispatch m env files, files0, []) jobs))
              = TotalFiles (statsAtDispatch m env files)"
      "FailedFiles (fst (runPool m env (statsAtDispatch m env files, files0, []) jobs))
              = FailedFiles (statsAtDispatch m env files)"
      "length rs \<le> length jobs"
      "1 \<le> MaxWorkers (Transfer (Manager.config m)) \<longrightarrow> length rs = length jobs"
    by blast
  have s: "snd (snd (runPool m env (statsAtDispatch m env files, files0, []) jobs)) = rs"
    by (subst r) simp
  show ?thesis unfolding s using f statsAtDispatch_fields[of m env files] by simp
qed

lemma finalStats_fields:
  "ProcessedFiles (finalStats m env files0 files) = int (length (poolResults m env files0 files))
   \<and> TotalFiles (finalStats m env files0 files) = int (length (enqueued m env files))
   \<and> FailedFiles (finalStats m env files0 files)
       = int (length (filter (\<lambda>e. e \<noteq> None) (poolResults m env files0 files)))
   \<and> length (poolResults m env files0 files) \<le> length (enqueued m env files)
   \<and> (1 \<le> MaxWorkers (Transfer (Manager.config m)) \<longrightarrow>
        length (poolResults m env files0 files) = length (enqueued m env files))"
  using pool_fields[of m env files files0 "enqueued m env files"]
  by (simp add: finalStats_eq collect_fields poolResults_def)


lemma last_map_upt: "last (map f [0 ..< Suc n]) = f n"
  by (simp add: last_map)

text \<open>
  C5.  Whatever the order of the discovered files, a job in the queue is a priority job
  exactly when the base name of its source file begins with one of the configured
  prefixes (byte for byte), and every priority job stands in the queue before every
  normal job.
\<close>

theorem priority_jobs_enqueued_first:
  "(\<forall>t\<in>set (enqueued m env files).
      Priority t \<longleftrightarrow>
        (\<exists>pre\<in>set (PriorityPrefixes (Transfer (Manager.config m))). prefix pre (Base (SourcePath t))))
   \<and> (\<forall>i j. i < length (enqueued m env files) \<and> j < length (enqueued m env files)
            \<and> Priority (enqueued m env files ! i) \<and> \<not> Priority (enqueued m env files ! j)
          \<longrightarrow> i < j)"
proof -
  obtain st ps ns where p: "prepare m env files = (st, ps, ns)" by (cases "prepare m env files") auto
  from prepare_inv[of m env files] p
  have inv: "\<forall>t\<in>set ps. Priority t" "\<forall>t\<in>set ns. \<not> Priority t"
    "\<forall>t\<in>set (ps @ ns). Priority t = isPriorityFile m (Base (SourcePath t))"
    by (simp_all add: preparedInv_def list_all_iff)
  have q: "enqueued m env files = ps @ ns" by (simp add: enqueued_def p)
  have a: "\<forall>t\<in>set (ps @ ns). Priority t \<longleftrightarrow>
        (\<exists>pre\<in>set (PriorityPrefixes (Transfer (Manager.config m))). prefix pre (Base (SourcePath t)))"
    using inv(3) by (simp add: isPriorityFile_def hasPriorityPrefix_iff)
  have b: "i < j" if h: "i < length (ps @ ns)" "j < length (ps @ ns)"
      "Priority ((ps @ ns) ! i)" "\<not> Priority ((ps @ ns) ! j)" for i j
  proof -
    have "i < length ps"
    proof (rule ccontr)
      assume "\<not> i < length ps"
      then have "(ps @ ns) ! i = ns ! (i - length ps)" "i - length ps < length ns"
        using h(1) by (simp_all add: nth_append)
      with inv(2) h(3) show False by (metis nth_mem)
    qed
    moreover have "\<not> j < length ps"
    proof
      assume "j < length ps"
      then have "(ps @ ns) ! j = ps ! j" by (simp add: nth_append)
      with inv(1) h(4) \<open>j < length ps\<close> show False by (metis nth_mem)
    qed
    ultimately show ?thesis by simp
  qed
  show ?thesis unfolding q using a b by blast
qed

theorem priority_jobs_enqueued_first_witness:
  "Priority (enqueued refManager quietEnv cardFiles ! 0)
   \<and> \<not> Priority (enqueued refManager quietEnv cardFiles ! 1)
   \<and> (\<exists>pre\<in>set (PriorityPrefixes (Transfer (Manager.config refManager))).
         prefix pre (Base (SourcePath (enqueued refManager quietEnv cardFiles ! 0))))
   \<and> \<not> (\<exists>pre\<in>set (PriorityPrefixes (Transfer (Manager.config refManager))).
         prefix pre (Base (SourcePath (enqueued refManager quietEnv cardFiles ! 1))))
   \<and> (0::nat) < 1"
proof -
  let ?q = "enqueued refManager quietEnv cardFiles"
  have mp: "map Priority ?q = [True, False, False]" by code_simp
  then have "length (map Priority ?q) = 3" by simp
  then have len: "length ?q = 3" by simp
  have p0: "Priority (?q ! 0)" using nth_map[of 0 ?q Priority] len mp by simp
  have p1: "\<not> Priority (?q ! 1)" using nth_map[of 1 ?q Priority] len mp by simp
  have m0: "?q ! 0 \<in> set ?q" and m1: "?q ! 1 \<in> set ?q" using len by simp_all
  note T = priority_jobs_enqueued_first[of refManager quietEnv cardFiles]
  from T m0 p0 have a: "\<exists>pre\<in>set (PriorityPrefixes (Transfer (Manager.config refManager))).
         prefix pre (Base (SourcePath (?q ! 0)))" by blast
  from T m1 p1 have b: "\<not> (\<exists>pre\<in>set (PriorityPrefixes (Transfer (Manager.config refManager))).
         prefix pre (Base (SourcePath (?q ! 1))))" by blast
  from T len p0 p1 have c: "(0::nat) < 1" by simp
  from p0 p1 a b c show ?thesis by blast
qed

text \<open>
  A configuration that has passed \<open>Validate\<close> starts at least one worker, and a run
  under it processes every job.
\<close>

lemma Validate_workers:
  assumes "Validate c = Inr c'"
  shows "1 \<le> MaxWorkers (Transfer c')"
proof -
  from assms have "c' = c\<lparr>Transfer :=
      (let t1 = (if MaxWorkers (Transfer c) < 1 then (Transfer c)\<lparr>MaxWorkers := 1\<rparr> else Transfer c)
       in if BufferSize t1 < 1024 then t1\<lparr>BufferSize := 1048576\<rparr> else t1)\<rparr>"
    by (auto simp: Validate_def Let_def split: if_splits)
  then show ?thesis by (simp add: Let_def)
qed

lemma validated_run_processes_every_job:
  assumes "Validate c = Inr (Manager.config m)"
  shows "ProcessedFiles (finalStats m env files0 files) = TotalFiles (finalStats m env files0 files)"
  using finalStats_fields[of m env files0 files] Validate_workers[OF assms] by simp

text \<open>
  C6.  In every run \<open>FailedFiles\<close> is at most \<open>ProcessedFiles\<close> when
  \<open>TransferFiles\<close> has returned, \<open>TotalFiles\<close> keeps from dispatch onwards the
  value it had when dispatch started, and \<open>ProcessedFiles\<close> is at most
  \<open>TotalFiles\<close> at every intermediate point; when at least one worker runs, as
  configuration validation ensures, \<open>ProcessedFiles\<close> equals \<open>TotalFiles\<close> at
  completion.
\<close>

theorem run_statistics_invariant:
  "(1 \<le> MaxWorkers (Transfer (Manager.config m)) \<longrightarrow>
      ProcessedFiles (finalStats m env files0 files) = TotalFiles (finalStats m env files0 files))
   \<and> FailedFiles (finalStats m env files0 files) \<le> ProcessedFiles (finalStats m env files0 files)
   \<and> TotalFiles (finalStats m env files0 files) = TotalFiles (statsAtDispatch m env files)
   \<and> (\<forall>s\<in>set (poolSnapshots m env files0 files @ collectSnapshots m env files0 files).
         TotalFiles s = TotalFiles (statsAtDispatch m env files))
   \<and> (\<forall>s\<in>set (snapshots m env files0 files). ProcessedFiles s \<le> TotalFiles s)
   \<and> last (snapshots m env files0 files) = finalStats m env files0 files"
proof -
  let ?q = "enqueued m env files"
  let ?rs = "poolResults m env files0 files"
  note fin = finalStats_fields[of m env files0 files]
  have lastpool: "last (poolSnapshots m env files0 files)
      = fst (runPool m env (statsAtDispatch m env files, files0, []) ?q)"
    unfolding poolSnapshots_def by (simp only: last_map_upt take_all order_refl)
  have c1: "ProcessedFiles s = 0 \<and> 0 \<le> TotalFiles s" if "s \<in> set (classifySnapshots m env files)" for s
  proof -
    from that obtain k where "s = fst (prepare m env (take k files))"
      by (auto simp: classifySnapshots_def simp del: upt_Suc)
    then show ?thesis
      using statsAtDispatch_fields[of m env "take k files"] by (simp add: statsAtDispatch_def)
  qed
  have c2: "ProcessedFiles s \<le> TotalFiles s \<and> TotalFiles s = TotalFiles (statsAtDispatch m env files)"
    if "s \<in> set (poolSnapshots m env files0 files)" for s
  proof -
    from that obtain k where
      s: "s = fst (runPool m env (statsAtDispatch m env files, files0, []) (take k ?q))"
      by (auto simp: poolSnapshots_def simp del: upt_Suc)
    from pool_fields[of m env files files0 "take k ?q"] statsAtDispatch_fields[of m env files]
    show ?thesis unfolding s by simp
  qed
  have lp: "last (poolSnapshots m env files0 files) \<in> set (poolSnapshots m env files0 files)"
    by (rule last_in_set) (simp add: poolSnapshots_def)
  have c3: "ProcessedFiles s \<le> TotalFiles s \<and> TotalFiles s = TotalFiles (statsAtDispatch m env files)"
    if "s \<in> set (collectSnapshots m env files0 files)" for s
  proof -
    from that obtain k where
      s: "s = collect (last (poolSnapshots m env files0 files)) (take k ?rs)"
      by (auto simp: collectSnapshots_def simp del: upt_Suc)
    show ?thesis unfolding s using c2[OF lp] by (simp add: collect_fields)
  qed
  have l: "last (snapshots m env files0 files) = finalStats m env files0 files"
  proof -
    have ne: "collectSnapshots m env files0 files \<noteq> []" by (simp add: collectSnapshots_def)
    have "last (snapshots m env files0 files) = last (collectSnapshots m env files0 files)"
      using ne by (simp add: snapshots_def)
    also have "\<dots> = collect (last (poolSnapshots m env files0 files)) ?rs"
      unfolding collectSnapshots_def by (simp only: last_map_upt take_all order_refl)
    also have "\<dots> = finalStats m env files0 files"
      by (simp add: lastpool finalStats_eq)
    finally show ?thesis .
  qed
  have f1: "1 \<le> MaxWorkers (Transfer (Manager.config m)) \<longrightarrow>
      ProcessedFiles (finalStats m env files0 files) = TotalFiles (finalStats m env files0 files)"
    using fin by simp
  have f2: "FailedFiles (finalStats m env files0 files) \<le> ProcessedFiles (finalStats m env files0 files)"
    using fin by simp
  have f3: "TotalFiles (finalStats m env files0 files) = TotalFiles (statsAtDispatch m env files)"
    using fin statsAtDispatch_fields[of m env files] by simp
  have f4: "\<forall>s\<in>set (poolSnapshots m env files0 files @ collectSnapshots m env files0 files).
         TotalFiles s = TotalFiles (statsAtDispatch m env files)"
    using c2 c3 by auto
  have f5: "\<forall>s\<in>set (snapshots m env files0 files). ProcessedFiles s \<le> TotalFiles s"
    using c1 c2 c3 by (auto simp: snapshots_def)
  from f1 f2 f3 f4 f5 l show ?thesis by blast
qed

theorem run_statistics_invariant_witness:
  "1 \<le> MaxWorkers (Transfer (Manager.config refManager))
   \<and> ProcessedFiles (finalStats refManager unreadableEnv Map.empty cardFiles) = 3
   \<and> TotalFiles (finalStats refManager unreadableEnv Map.empty cardFiles) = 3
   \<and> FailedFiles (finalStats refManager unreadableEnv Map.empty cardFiles) \<le> 3
   \<and> ProcessedFiles (hd (snapshots refManager unreadableEnv Map.empty cardFiles))
       \<le> TotalFiles (hd (snapshots refManager unreadableEnv Map.empty cardFiles))"
proof -
  have w: "1 \<le> MaxWorkers (Transfer (Manager.config refManager))"
    by (simp add: refManager_def refConfig_def)
  have t: "TotalFiles (finalStats refManager unreadableEnv Map.empty cardFiles) = 3" by code_simp
  have "snapshots refManager unreadableEnv Map.empty cardFiles \<noteq> []"
    by (simp add: snapshots_def classifySnapshots_def)
  then have h: "hd (snapshots refManager unreadableEnv Map.empty cardFiles)
                  \<in> set (snapshots refManager unreadableEnv Map.empty cardFiles)"
    by (rule hd_in_set)
  note T = run_statistics_invariant[of refManager unreadableEnv Map.empty cardFiles]
  from T w t have a: "ProcessedFiles (finalStats refManager unreadableEnv Map.empty cardFiles) = 3"
    by simp
  from T a have b: "FailedFiles (finalStats refManager unreadableEnv Map.empty cardFiles) \<le> 3"
    by simp
  from T h have c: "ProcessedFiles (hd (snapshots refManager unreadableEnv Map.empty cardFiles))
       \<le> TotalFiles (hd (snapshots refManager unreadableEnv Map.empty cardFiles))" by blast
  from w a t b c show ?thesis by blast
qed

text \<open>
  Without a worker the jobs are enqueued and never received: the run returns with three
  files counted and none processed.
\<close>

theorem run_without_workers_processes_nothing:
  "ProcessedFiles (finalStats (withWorkers 0) quietEnv Map.empty cardFiles) = 0
   \<and> TotalFiles (finalStats (withWorkers 0) quietEnv Map.empty cardFiles) = 3
   \<and> ProcessedFiles (finalStats (withWorkers 0) quietEnv Map.empty cardFiles)
       \<noteq> TotalFiles (finalStats (withWorkers 0) quietEnv Map.empty cardFiles)"
  by code_simp

lemma transferFile_error_any_store:
  "fst (transferFile m env st t) = fst (transferFile m env st' t)"
  by (simp add: transferFile_def Let_def split: copy_result.splits)

lemma worker_results:
  "snd (snd (foldl (workerStep m env) (st, files, res) jobs))
     = res @ map (\<lambda>t. fst (transferFile m env anyStore t)) jobs"
proof (induction jobs arbitrary: st files res)
  case Nil
  show ?case by simp
next
  case (Cons t jobs)
  obtain err files1 where tf: "transferFile m env files t = (err, files1)"
    by (cases "transferFile m env files t") auto
  have e: "err = fst (transferFile m env anyStore t)"
    using transferFile_error_any_store[of m env files t anyStore] tf by simp
  obtain st1 where step: "workerStep m env (st, files, res) t = (st1, files1, res @ [err])"
    by (simp add: workerStep_def tf)
  show ?case using Cons.IH[of st1 files1 "res @ [err]"] step e by simp
qed

lemma poolResults_eq:
  assumes "1 \<le> MaxWorkers (Transfer (Manager.config m))"
  shows "poolResults m env files0 files
           = map (\<lambda>t. fst (transferFile m env anyStore t)) (enqueued m env files)"
  using assms worker_results[of m env "statsAtDispatch m env files" files0 "[]" "enqueued m env files" anyStore]
  by (simp add: poolResults_def runPool_def worker_def)

lemma prepareFile_skip:
  "\<not> createsJob m env f \<Longrightarrow> prepareFile m env acc f = acc"
  by (cases acc) (auto simp: createsJob_def prepareFile_def split: option.splits sum.splits)

lemma createsJob_failures:
  "os_Stat env f = None \<Longrightarrow> \<not> createsJob m env f"
  "GetUniqueDestinationPath (parser m) env (Parse (parser m) f) = Inl e \<Longrightarrow> \<not> createsJob m env f"
  by (simp_all add: createsJob_def split: option.splits)

lemma prepareFile_sources:
  "map SourcePath (fst (snd (prepareFile m env (st, ps, ns) f)))
     = map SourcePath ps @ (if createsJob m env f \<and> isPriorityFile m (Base f) then [f] else [])"
  "map SourcePath (snd (snd (prepareFile m env (st, ps, ns) f)))
     = map SourcePath ns @ (if createsJob m env f \<and> \<not> isPriorityFile m (Base f) then [f] else [])"
  by (auto simp: createsJob_def prepareFile_def Let_def split: option.splits sum.splits)

lemma prepare_fold_sources:
  "map SourcePath (fst (snd (foldl (prepareFile m env) (st, ps, ns) files)))
     = map SourcePath ps @ filter (\<lambda>f. createsJob m env f \<and> isPriorityFile m (Base f)) files
   \<and> map SourcePath (snd (snd (foldl (prepareFile m env) (st, ps, ns) files)))
     = map SourcePath ns @ filter (\<lambda>f. createsJob m env f \<and> \<not> isPriorityFile m (Base f)) files"
proof (induction files arbitrary: st ps ns)
  case Nil
  show ?case by simp
next
  case (Cons f files)
  obtain st1 ps1 ns1 where p: "prepareFile m env (st, ps, ns) f = (st1, ps1, ns1)"
    by (cases "prepareFile m env (st, ps, ns) f") auto
  from prepareFile_sources[of m env st ps ns f] p
  have s: "map SourcePath ps1
             = map SourcePath ps @ (if createsJob m env f \<and> isPriorityFile m (Base f) then [f] else [])"
    "map SourcePath ns1
             = map SourcePath ns @ (if createsJob m env f \<and> \<not> isPriorityFile m (Base f) then [f] else [])"
    by simp_all
  show ?case using Cons.IH[of st1 ps1 ns1] p s by simp
qed

lemma enqueued_sources:
  "map SourcePath (enqueued m env files)
     = filter (\<lambda>f. createsJob m env f \<and> isPriorityFile m (Base f)) files
       @ filter (\<lambda>f. createsJob m env f \<and> \<not> isPriorityFile m (Base f)) files"
proof -
  obtain st ps ns where p: "prepare m env files = (st, ps, ns)" by (cases "prepare m env files") auto
  from prepare_fold_sources[of m env newStats "[]" "[]" files] p
  show ?thesis by (simp add: enqueued_def prepare_def)
qed

lemma length_filter_split:
  "length (filter (\<lambda>f. P f \<and> Q f) xs) + length (filter (\<lambda>f. P f \<and> \<not> Q f) xs) = length (filter P xs)"
  by (induction xs) auto

lemma length_enqueued: "length (enqueued m env files) = length (filter (createsJob m env) files)"
proof -
  have "length (enqueued m env files) = length (map SourcePath (enqueued m env files))" by simp
  also have "\<dots> = length (filter (createsJob m env) files)"
    unfolding enqueued_sources by (simp add: length_filter_split)
  finally show ?thesis .
qed

text \<open>
  C2.  \<open>TransferFiles\<close> always returns nil.  With at least one worker every
  enqueued job is transferred, whatever happened to the jobs before it, and
  \<open>FailedFiles\<close> is the number of enqueued jobs for which \<open>transferFile\<close>
  returned an error, of whatever kind.  The jobs are exactly the files for which the
  classification loop creates one, and \<open>TotalFiles\<close> and \<open>ProcessedFiles\<close>
  count these: a file that cannot be read, or whose versioning is exhausted, creates no
  job and leaves the statistics and both lists as they were.  \<open>ProcessDevice\<close>
  returns an error exactly when the scan of the mount path fails.
\<close>

theorem transfer_failures_counted_not_propagated:
  "fst (TransferFiles m env files0 files) = None
   \<and> FailedFiles (finalStats m env files0 files)
       = int (length (filter (\<lambda>e. e \<noteq> None) (poolResults m env files0 files)))
   \<and> (1 \<le> MaxWorkers (Transfer (Manager.config m)) \<longrightarrow>
        length (poolResults m env files0 files) = length (enqueued m env files)
        \<and> poolResults m env files0 files
            = map (\<lambda>t. fst (transferFile m env anyStore t)) (enqueued m env files)
        \<and> FailedFiles (finalStats m env files0 files)
            = int (length (filter (\<lambda>t. fst (transferFile m env anyStore t) \<noteq> None)
                             (enqueued m env files)))
        \<and> ProcessedFiles (finalStats m env files0 files)
            = int (length (filter (createsJob m env) files)))
   \<and> TotalFiles (finalStats m env files0 files) = int (length (enqueued m env files))
   \<and> TotalFiles (finalStats m env files0 files) = int (length (filter (createsJob m env) files))
   \<and> map SourcePath (enqueued m env files)
       = filter (\<lambda>f. createsJob m env f \<and> isPriorityFile m (Base f)) files
         @ filter (\<lambda>f. createsJob m env f \<and> \<not> isPriorityFile m (Base f)) files
   \<and> (os_Stat env f = None
        \<or> GetUniqueDestinationPath (parser m) env (Parse (parser m) f) = Inl (TooManyVersions d)
       \<longrightarrow> \<not> createsJob m env f \<and> prepareFile m env acc f = acc)
   \<and> fst (ProcessDevice dm env files0 device)
       = (case walk env (MountPath device) of Inl e \<Rightarrow> Some (ScanFailed e) | Inr fs \<Rightarrow> None)"
proof -
  note fin = finalStats_fields[of m env files0 files]
  have 1: "fst (TransferFiles m env files0 files) = None" by (rule TransferFiles_returns_nil)
  have 2: "FailedFiles (finalStats m env files0 files)
       = int (length (filter (\<lambda>e. e \<noteq> None) (poolResults m env files0 files)))"
    using fin by simp
  have 3: "length (poolResults m env files0 files) = length (enqueued m env files)
        \<and> poolResults m env files0 files
            = map (\<lambda>t. fst (transferFile m env anyStore t)) (enqueued m env files)
        \<and> FailedFiles (finalStats m env files0 files)
            = int (length (filter (\<lambda>t. fst (transferFile m env anyStore t) \<noteq> None)
                             (enqueued m env files)))
        \<and> ProcessedFiles (finalStats m env files0 files)
            = int (length (filter (createsJob m env) files))"
    if w: "1 \<le> MaxWorkers (Transfer (Manager.config m))"
  proof -
    note r = poolResults_eq[OF w, of env files0 files anyStore]
    have a: "length (poolResults m env files0 files) = length (enqueued m env files)"
      using fin w by simp
    have "filter (\<lambda>e. e \<noteq> None) (map (\<lambda>t. fst (transferFile m env anyStore t)) (enqueued m env files))
            = map (\<lambda>t. fst (transferFile m env anyStore t))
                (filter (\<lambda>t. fst (transferFile m env anyStore t) \<noteq> None) (enqueued m env files))"
      by (simp add: filter_map comp_def)
    then have b: "FailedFiles (finalStats m env files0 files)
            = int (length (filter (\<lambda>t. fst (transferFile m env anyStore t) \<noteq> None)
                             (enqueued m env files)))"
      using 2 r by simp
    have c: "ProcessedFiles (finalStats m env files0 files)
            = int (length (filter (createsJob m env) files))"
      using fin a by (simp add: length_enqueued)
    from a r b c show ?thesis by blast
  qed
  have 4: "TotalFiles (finalStats m env files0 files) = int (length (enqueued m env files))"
    using fin by simp
  have 5: "TotalFiles (finalStats m env files0 files) = int (length (filter (createsJob m env) files))"
    using 4 by (simp add: length_enqueued)
  note 6 = enqueued_sources[of m env files]
  have 7: "\<not> createsJob m env f \<and> prepareFile m env acc f = acc"
    if "os_Stat env f = None
        \<or> GetUniqueDestinationPath (parser m) env (Parse (parser m) f) = Inl (TooManyVersions d)"
  proof -
    from that have "\<not> createsJob m env f" using createsJob_failures by blast
    then show ?thesis using prepareFile_skip by blast
  qed
  have 8: "fst (ProcessDevice dm env files0 device)
       = (case walk env (MountPath device) of Inl e \<Rightarrow> Some (ScanFailed e) | Inr fs \<Rightarrow> None)"
  proof (cases "walk env (MountPath device)")
    case (Inl e)
    then show ?thesis by (simp add: ProcessDevice_def)
  next
    case (Inr fs)
    let ?tm = "\<lparr>config = dconfig dm, parser = dparser dm, stats = newStats\<rparr>"
    obtain e m' f1 where t: "TransferFiles ?tm env files0 fs = (e, m', f1)"
      by (cases "TransferFiles ?tm env files0 fs") auto
    with TransferFiles_returns_nil[of ?tm env files0 fs] have "e = None" by simp
    with Inr t show ?thesis by (simp add: ProcessDevice_def Let_def)
  qed
  from 1 2 3 4 5 6 7 8 show ?thesis by blast
qed

section \<open>Path elements\<close>

lemma fieldsFrom_append_sep:
  "fieldsFrom cur (a @ CHR ''/'' # b) = fieldsFrom cur a @ fieldsFrom [] b"
  by (induction a arbitrary: cur) (simp_all add: isSep_def)

lemma fieldsFrom_no_sep:
  "CHR ''/'' \<notin> set n \<Longrightarrow> fieldsFrom cur n = [rev cur @ n]"
  by (induction n arbitrary: cur) (auto simp: isSep_def)

lemma joinSep_snoc:
  "joinSep (xs @ [n]) = (if xs = [] then n else joinSep xs @ CHR ''/'' # n)"
  by (induction xs rule: joinSep.induct) simp_all

lemma Clean_element:
  assumes "isPathElement n"
  shows "Clean n = n"
proof -
  from assms have n: "n \<noteq> []" "CHR ''/'' \<notin> set n" "n \<noteq> ''.''" "n \<noteq> ''..''"
    by (simp_all add: isPathElement_def)
  from n have "hd n \<noteq> CHR ''/''" by (cases n) auto
  with n show ?thesis
    by (simp add: Clean_def Let_def pathFields_def fieldsFrom_no_sep cleanStep_def isSep_def)
qed

lemma Clean_append_element:
  assumes "isPathElement n" and "d \<noteq> []"
  shows "\<exists>pre. Clean (d @ CHR ''/'' # n) = pre @ n \<and> (pre = [] \<or> last pre = CHR ''/'')"
proof -
  from assms have n: "n \<noteq> []" "CHR ''/'' \<notin> set n" "n \<noteq> ''.''" "n \<noteq> ''..''"
    by (simp_all add: isPathElement_def)
  define rooted where "rooted = isSep (hd d)"
  define out where
    "out = foldl (cleanStep rooted) [] (filter (\<lambda>e. e \<noteq> [] \<and> e \<noteq> ''.'') (pathFields d))"
  have f: "pathFields (d @ CHR ''/'' # n) = pathFields d @ [n]"
    by (simp add: pathFields_def fieldsFrom_append_sep fieldsFrom_no_sep n)
  have hd: "hd (d @ CHR ''/'' # n) = hd d" using assms(2) by simp
  have o: "foldl (cleanStep rooted) []
             (filter (\<lambda>e. e \<noteq> [] \<and> e \<noteq> ''.'') (pathFields (d @ CHR ''/'' # n))) = out @ [n]"
    using n by (simp add: f out_def cleanStep_def)
  have ne: "d @ CHR ''/'' # n \<noteq> []" by simp
  have b: "joinSep (out @ [n]) \<noteq> []" using n by (simp add: joinSep_snoc)
  have "Clean (d @ CHR ''/'' # n) =
          (if rooted then CHR ''/'' # joinSep (out @ [n])
           else if joinSep (out @ [n]) = [] then ''.'' else joinSep (out @ [n]))"
    by (simp only: Clean_def Let_def hd rooted_def[symmetric] o ne if_False)
  with b have c: "Clean (d @ CHR ''/'' # n) =
             (if rooted then CHR ''/'' # joinSep (out @ [n]) else joinSep (out @ [n]))"
    by simp
  show ?thesis
  proof (cases rooted)
    case True
    then have "Clean (d @ CHR ''/'' # n) = (if out = [] then ''/'' else CHR ''/'' # joinSep out @ ''/'') @ n"
      using c by (simp add: joinSep_snoc)
    then show ?thesis by (intro exI conjI) (assumption, simp)
  next
    case False
    then have "Clean (d @ CHR ''/'' # n) = (if out = [] then [] else joinSep out @ ''/'') @ n"
      using c by (simp add: joinSep_snoc)
    then show ?thesis by (intro exI conjI) (assumption, simp)
  qed
qed

lemma Join_element:
  assumes "isPathElement n"
  shows "\<exists>pre. Join [d, n] = pre @ n \<and> (pre = [] \<or> last pre = CHR ''/'')"
proof (cases "d = []")
  case True
  with assms have "Join [d, n] = [] @ n"
    by (simp add: Join_def Clean_element isPathElement_def)
  then show ?thesis by blast
next
  case False
  then have "Join [d, n] = Clean (d @ CHR ''/'' # n)" by (simp add: Join_def)
  with Clean_append_element[OF assms False] show ?thesis by simp
qed

lemma Base_element:
  assumes "isPathElement n" and "pre = [] \<or> last pre = CHR ''/''"
  shows "Base (pre @ n) = n"
proof -
  from assms have n: "n \<noteq> []" "CHR ''/'' \<notin> set n" by (simp_all add: isPathElement_def)
  have l: "\<not> isSep (hd (rev n))" using n by (cases n rule: rev_cases) (auto simp: isSep_def)
  have d: "dropWhile isSep (rev n @ rev pre) = rev n @ rev pre"
    using n l by (cases "rev n") auto
  have t1: "takeWhile (\<lambda>c. \<not> isSep c) (rev pre) = []"
    using assms(2) by (cases pre rule: rev_cases) (auto simp: isSep_def)
  have "\<And>x. x \<in> set (rev n) \<Longrightarrow> \<not> isSep x" using n by (auto simp: isSep_def)
  then have t: "takeWhile (\<lambda>c. \<not> isSep c) (rev n @ rev pre) = rev n"
    using takeWhile_append2[of "rev n" "\<lambda>c. \<not> isSep c" "rev pre"] t1 by simp
  show ?thesis using n by (simp add: Base_def d t)
qed

lemma Base_Join_element: "isPathElement n \<Longrightarrow> Base (Join [d, n]) = n"
  using Join_element[of n d] Base_element by metis

section \<open>Versioning\<close>

lemma GetUniqueDestinationPath_without_metacharacters:
  "\<not> hasMeta (GetFullDestinationPath p info) \<Longrightarrow>
     GetUniqueDestinationPath p env info = Inr (GetFullDestinationPath p info)"
  by (simp add: GetUniqueDestinationPath_def Glob_def Let_def)

text \<open>
  C1.  The destination of \<open>random_video.mp4\<close> is already present in the fallback
  folder, and \<open>GetUniqueDestinationPath\<close> returns that very path: Glob reports no
  error for it, so the versioning loop is never entered.
\<close>

theorem GetUniqueDestinationPath_returns_occupied_path:
  "os_Lstat occupiedEnv ''/mnt/storage/Unsorted/random_video.mp4''
   \<and> GetUniqueDestinationPath refParser occupiedEnv (Parse refParser ''/media/sdb1/random_video.mp4'')
       = Inr ''/mnt/storage/Unsorted/random_video.mp4''"
  by code_simp

lemma digit_chars: "list_all (\<lambda>d. char_of (48 + d :: nat) \<in> set ''0123456789'') [0 ..< 10]"
  by code_simp

lemma digit_char: "d < 10 \<Longrightarrow> char_of (48 + d :: nat) \<in> set ''0123456789''"
  using digit_chars unfolding list_all_iff by (metis atLeastLessThan_iff set_upt zero_le)

lemma showNat_chars: "set (showNat n) \<subseteq> set ''0123456789''"
proof (induction n rule: showNat.induct)
  case (1 n)
  show ?case
  proof (cases "n < 10")
    case True
    then show ?thesis using digit_char[of n] by (subst showNat.simps) simp
  next
    case False
    have "n mod 10 < 10" by simp
    then have "char_of (48 + n mod 10) \<in> set ''0123456789''" by (rule digit_char)
    with False 1 show ?thesis by (subst showNat.simps) simp
  qed
qed

lemma showNat_no_sep: "CHR ''/'' \<notin> set (showNat n)" "CHR '']'' \<notin> set (showNat n)"
proof -
  have "CHR ''/'' \<notin> set ''0123456789''" "CHR '']'' \<notin> set ''0123456789''" by simp_all
  with showNat_chars[of n] show "CHR ''/'' \<notin> set (showNat n)" "CHR '']'' \<notin> set (showNat n)"
    by (meson subsetD)+
qed

lemma showInt_no_sep: "CHR ''/'' \<notin> set (showInt v)" "CHR '']'' \<notin> set (showInt v)"
  by (simp_all add: showInt_def showNat_no_sep)

lemma versionLoop_exhausted:
  "(\<forall>v. Glob env (Join [dir, n @ ''_v'' @ showInt v @ ext]) = Inl ErrBadPattern)
   \<Longrightarrow> versionLoop env dest dir n ext v = Inl (TooManyVersions dest)"
proof (induction env dest dir n ext v rule: versionLoop.induct)
  case (1 env dest dir n ext v)
  show ?case
  proof (cases "v + 1 > 1000")
    case True
    show ?thesis
      apply (subst versionLoop.simps)
      using True "1.prems" by (simp add: Let_def)
  next
    case False
    have "versionLoop env dest dir n ext (v + 1) = Inl (TooManyVersions dest)"
      using "1.IH"[OF refl refl _ False] "1.prems" by simp
    then show ?thesis
      apply (subst versionLoop.simps)
      using False "1.prems" by (simp add: Let_def)
  qed
qed

lemma Join_Unsorted:
  assumes "isPathElement x"
  shows "Join [''/mnt/storage/Unsorted'', x] = ''/mnt/storage/Unsorted/'' @ x"
proof -
  from assms have x: "x \<noteq> []" "CHR ''/'' \<notin> set x" "x \<noteq> ''.''" "x \<noteq> ''..''"
    by (simp_all add: isPathElement_def)
  have f: "pathFields (''/mnt/storage/Unsorted'' @ CHR ''/'' # x)
             = pathFields ''/mnt/storage/Unsorted'' @ [x]"
    by (simp only: pathFields_def fieldsFrom_append_sep fieldsFrom_no_sep[OF x(2)]) simp
  have g: "pathFields ''/mnt/storage/Unsorted'' = [] # [''mnt'', ''storage'', ''Unsorted'']"
    by code_simp
  have "Join [''/mnt/storage/Unsorted'', x] = Clean (''/mnt/storage/Unsorted'' @ CHR ''/'' # x)"
    by (simp add: Join_def)
  also have "\<dots> = ''/mnt/storage/Unsorted/'' @ x"
    unfolding Clean_def f g using x by (simp add: cleanStep_def isSep_def)
  finally show ?thesis .
qed

lemma candidate_element: "isPathElement (''clip[1_v'' @ showInt v @ ''.mp4'')"
  by (simp add: isPathElement_def showInt_no_sep)

lemma candidate_glob:
  "Glob quietEnv (Join [''/mnt/storage/Unsorted'', ''clip[1'' @ ''_v'' @ showInt v @ ''.mp4'']) = Inl ErrBadPattern"
proof -
  have "Join [''/mnt/storage/Unsorted'', ''clip[1'' @ ''_v'' @ showInt v @ ''.mp4'']
          = ''/mnt/storage/Unsorted/'' @ ''clip[1_v'' @ showInt v @ ''.mp4''"
    using Join_Unsorted[OF candidate_element[of v]] by simp
  then show ?thesis
    by (simp add: Glob_def hasMeta_def quietEnv_def showInt_no_sep)
qed

lemma bracket_parts:
  "GetFullDestinationPath refParser (Parse refParser ''/media/sdb1/clip[1.mp4'') = ''/mnt/storage/Unsorted/clip[1.mp4''"
  "Glob quietEnv ''/mnt/storage/Unsorted/clip[1.mp4'' = Inl ErrBadPattern"
  "Dir ''/mnt/storage/Unsorted/clip[1.mp4'' = ''/mnt/storage/Unsorted''"
  "Ext ''/mnt/storage/Unsorted/clip[1.mp4'' = ''.mp4''"
  "TrimSuffix (Base ''/mnt/storage/Unsorted/clip[1.mp4'') ''.mp4'' = ''clip[1''"
  by code_simp+

lemma bracket_exhausted:
  "GetUniqueDestinationPath refParser quietEnv (Parse refParser ''/media/sdb1/clip[1.mp4'')
     = Inl (TooManyVersions ''/mnt/storage/Unsorted/clip[1.mp4'')"
  unfolding GetUniqueDestinationPath_def Let_def bracket_parts
  using versionLoop_exhausted[of quietEnv "''/mnt/storage/Unsorted''" "''clip[1''" "''.mp4''"] candidate_glob
  by simp

theorem transfer_failures_counted_not_propagated_witness:
  "1 \<le> MaxWorkers (Transfer (Manager.config refManager))
   \<and> fst (TransferFiles refManager unreadableEnv Map.empty cardFiles) = None
   \<and> poolResults refManager unreadableEnv Map.empty cardFiles
       = [Some OpenError, Some OpenError, Some OpenError]
   \<and> FailedFiles (finalStats refManager unreadableEnv Map.empty cardFiles) = 3
   \<and> ProcessedFiles (finalStats refManager unreadableEnv Map.empty cardFiles) = 3
   \<and> GetUniqueDestinationPath (parser refManager) quietEnv
         (Parse (parser refManager) ''/media/sdb1/clip[1.mp4'')
       = Inl (TooManyVersions ''/mnt/storage/Unsorted/clip[1.mp4'')
   \<and> prepareFile refManager quietEnv (newStats, [], []) ''/media/sdb1/clip[1.mp4''
       = (newStats, [], [])
   \<and> fst (ProcessDevice refDeviceManager unreadableEnv Map.empty sdCard) = None
   \<and> fst (ProcessDevice refDeviceManager unscannableEnv Map.empty sdCard) = Some (ScanFailed WalkError)"
proof -
  have w: "1 \<le> MaxWorkers (Transfer (Manager.config refManager))"
    by (simp add: refManager_def refConfig_def)
  have q: "map (\<lambda>t. fst (transferFile refManager unreadableEnv Map.empty t))
             (enqueued refManager unreadableEnv cardFiles)
           = [Some OpenError, Some OpenError, Some OpenError]" by code_simp
  have c: "filter (createsJob refManager unreadableEnv) cardFiles = cardFiles" by code_simp
  have l: "length cardFiles = 3" by (simp add: cardFiles_def)
  have k1: "walk unreadableEnv (MountPath sdCard) = Inr cardFiles"
    by (simp add: unreadableEnv_def quietEnv_def)
  have k2: "walk unscannableEnv (MountPath sdCard) = Inl WalkError"
    by (simp add: unscannableEnv_def quietEnv_def)
  have x: "GetUniqueDestinationPath (parser refManager) quietEnv
         (Parse (parser refManager) ''/media/sdb1/clip[1.mp4'')
       = Inl (TooManyVersions ''/mnt/storage/Unsorted/clip[1.mp4'')"
    using bracket_exhausted by (simp add: refManager_def)
  note T = transfer_failures_counted_not_propagated[of refManager unreadableEnv Map.empty cardFiles
      Map.empty _ _ _ refDeviceManager sdCard]
  note U = transfer_failures_counted_not_propagated[of refManager unscannableEnv Map.empty cardFiles
      Map.empty _ _ _ refDeviceManager sdCard]
  note V = transfer_failures_counted_not_propagated[of refManager quietEnv Map.empty cardFiles
      Map.empty "''/media/sdb1/clip[1.mp4''" "''/mnt/storage/Unsorted/clip[1.mp4''"
      "(newStats, [], [])" refDeviceManager sdCard]
  from T have a: "fst (TransferFiles refManager unreadableEnv Map.empty cardFiles) = None" by blast
  from T w q have r: "poolResults refManager unreadableEnv Map.empty cardFiles
       = [Some OpenError, Some OpenError, Some OpenError]" by simp
  from T r have b: "FailedFiles (finalStats refManager unreadableEnv Map.empty cardFiles) = 3" by simp
  from T w c l have p: "ProcessedFiles (finalStats refManager unreadableEnv Map.empty cardFiles) = 3"
    by simp
  from V x have s: "prepareFile refManager quietEnv (newStats, [], []) ''/media/sdb1/clip[1.mp4''
       = (newStats, [], [])" by blast
  from T k1 have d: "fst (ProcessDevice refDeviceManager unreadableEnv Map.empty sdCard) = None" by simp
  from U k2 have e: "fst (ProcessDevice refDeviceManager unscannableEnv Map.empty sdCard)
                       = Some (ScanFailed WalkError)" by simp
  from w a r b p x s d e show ?thesis by blast
qed

text \<open>
  A file whose name holds an opening bracket: every candidate name is a malformed
  pattern, versioning is exhausted, and the file is skipped without being counted as
  failed.
\<close>

theorem versioning_exhaustion_is_not_counted:
  "GetUniqueDestinationPath refParser quietEnv (Parse refParser ''/media/sdb1/clip[1.mp4'')
     = Inl (TooManyVersions ''/mnt/storage/Unsorted/clip[1.mp4'')
   \<and> FailedFiles (finalStats refManager quietEnv Map.empty [''/media/sdb1/clip[1.mp4'']) = 0"
proof -
  have p: "parser refManager = refParser" by (simp add: refManager_def)
  have s: "os_Stat quietEnv ''/media/sdb1/clip[1.mp4'' = Some \<lparr>IsDir = False, StatSize = 10\<rparr>"
    by (simp add: quietEnv_def)
  have "prepare refManager quietEnv [''/media/sdb1/clip[1.mp4''] = (newStats, [], [])"
    by (simp add: prepare_def prepareFile_def p s bracket_exhausted)
  then have "finalStats refManager quietEnv Map.empty [''/media/sdb1/clip[1.mp4''] = newStats"
    by (simp add: finalStats_def GetStats_def TransferFiles_def runPool_def worker_def collect_def)
  then show ?thesis using bracket_exhausted by (simp add: newStats_def)
qed

section \<open>Classification\<close>

lemma length_findFrom:
  "findFrom re start s = [] \<or> length (findFrom re start s) = Suc (NumSubexp re)"
proof (induction re start s rule: findFrom.induct)
  case (1 re start s)
  show ?case
  proof (cases "matches re (start, s, [])")
    case (Cons st sts)
    then show ?thesis
      by (subst (1 2) findFrom.simps) (simp add: submatches_def split: prod.splits)
  next
    case Nil
    show ?thesis
    proof (cases s)
      case Nil
      with \<open>matches re (start, s, []) = []\<close> show ?thesis by (subst findFrom.simps) simp
    next
      case (Cons c cs)
      with 1 \<open>matches re (start, s, []) = []\<close> show ?thesis
        by (subst (1 2) findFrom.simps) simp
    qed
  qed
qed

lemma length_FindStringSubmatch:
  "FindStringSubmatch re s = [] \<or> length (FindStringSubmatch re s) = Suc (NumSubexp re)"
  unfolding FindStringSubmatch_def by (rule length_findFrom)

lemma matches_Cat_iff:
  "st \<in> set (matches (Cat a b) st0) \<longleftrightarrow> (\<exists>st1\<in>set (matches a st0). st \<in> set (matches b st1))"
  by auto

lemma matches_Group_Plus:
  assumes "st \<in> set (matches (Group g (Plus k)) (p, s, caps))"
  shows "\<exists>n. 1 \<le> n \<and> n \<le> length s \<and> st = (p + n, drop n s, (g, take n s) # caps)
             \<and> (\<forall>c\<in>set (take n s). inClass k c)"
proof -
  from assms obtain n where n: "1 \<le> n" "n \<le> length (takeWhile (inClass k) s)"
    and st: "st = (p + n, drop n s, (g, take (p + n - p) s) # caps)"
    by (auto simp del: upt_Suc)
  have le: "length (takeWhile (inClass k) s) \<le> length s" by (rule length_takeWhile_le)
  have "take n (takeWhile (inClass k) s @ dropWhile (inClass k) s) = take n (takeWhile (inClass k) s)"
    using n(2) by (simp del: takeWhile_dropWhile_id)
  then have "take n s = take n (takeWhile (inClass k) s)"
    by (simp only: takeWhile_dropWhile_id)
  then have "\<forall>c\<in>set (take n s). inClass k c"
    by (metis in_set_takeD set_takeWhileD)
  with n le st show ?thesis by auto
qed

lemma matches_Lit:
  assumes "st \<in> set (matches (Lit w) (p, s, caps))"
  shows "st = (p + length w, drop (length w) s, caps) \<and> take (length w) s = w"
  using assms by (auto split: if_splits)

lemma matches_Group:
  assumes "st \<in> set (matches (Group g r) (p, s, caps))"
  shows "\<exists>p' s' caps'. (p', s', caps') \<in> set (matches r (p, s, caps))
            \<and> st = (p', s', (g, take (p' - p) s) # caps')"
  using assms by auto

lemma matches_camera:
  assumes "st \<in> set (matches (Group g (Alt (Lit ''ACam'') (Alt (Lit ''BCam'') (Lit ''CCam'')))) (p, s, caps))"
  shows "st = (p + 4, drop 4 s, (g, take 4 s) # caps) \<and> take 4 s \<in> {''ACam'', ''BCam'', ''CCam''}"
proof -
  from matches_Group[OF assms] obtain p' s' caps' where
    inner: "(p', s', caps') \<in> set (matches (Alt (Lit ''ACam'') (Alt (Lit ''BCam'') (Lit ''CCam''))) (p, s, caps))"
    and st: "st = (p', s', (g, take (p' - p) s) # caps')"
    by blast
  from inner have "(p', s', caps') \<in> set (matches (Lit ''ACam'') (p, s, caps))
      \<or> (p', s', caps') \<in> set (matches (Lit ''BCam'') (p, s, caps))
      \<or> (p', s', caps') \<in> set (matches (Lit ''CCam'') (p, s, caps))"
    by (simp only: matches.simps set_append Un_iff)
  then obtain w where w: "w = ''ACam'' \<or> w = ''BCam'' \<or> w = ''CCam''"
    and i: "(p', s', caps') \<in> set (matches (Lit w) (p, s, caps))"
    by blast
  from w have l: "length w = 4" by (elim disjE) simp_all
  from matches_Lit[OF i] l have "p' = p + 4" "s' = drop 4 s" "caps' = caps" "take 4 s = w"
    by simp_all
  with st w show ?thesis by simp
qed


lemma refRegex_matches:
  assumes "st \<in> set (matches refRegex (0, s, []))"
  shows "\<exists>a b c d. snd (snd st) = [(4, d), (3, c), (2, b), (1, a)]
           \<and> s = a @ ''_'' @ b @ ''_'' @ c @ ''_'' @ d
           \<and> a \<noteq> [] \<and> b \<noteq> [] \<and> c \<in> {''ACam'', ''BCam'', ''CCam''} \<and> d \<noteq> []
           \<and> CHR ''_'' \<notin> set a \<and> CHR ''_'' \<notin> set b \<and> CHR 0x0A \<notin> set d"
proof -
  define R7 where "R7 = Cat (Group 4 (Plus AnyChar)) EndText"
  define R6 where "R6 = Cat (Lit ''_'') R7"
  define R5 where "R5 = Cat (Group 3 (Alt (Lit ''ACam'') (Alt (Lit ''BCam'') (Lit ''CCam'')))) R6"
  define R4 where "R4 = Cat (Lit ''_'') R5"
  define R3 where "R3 = Cat (Group 2 (Plus (NoneOf ''_''))) R4"
  define R2 where "R2 = Cat (Lit ''_'') R3"
  define R1 where "R1 = Cat (Group 1 (Plus (NoneOf ''_''))) R2"
  have r: "refRegex = Cat BeginText R1"
    by (simp add: refRegex_def R1_def R2_def R3_def R4_def R5_def R6_def R7_def)
  from assms have 1: "st \<in> set (matches R1 (0, s, []))" unfolding r by auto
  then obtain st1 where a1: "st1 \<in> set (matches (Group 1 (Plus (NoneOf ''_''))) (0, s, []))"
    and 2: "st \<in> set (matches R2 st1)"
    unfolding R1_def matches_Cat_iff by blast
  from matches_Group_Plus[OF a1] obtain n1 where n1: "1 \<le> n1" "n1 \<le> length s"
    and st1: "st1 = (0 + n1, drop n1 s, [(1, take n1 s)])"
    and c1: "\<forall>c\<in>set (take n1 s). inClass (NoneOf ''_'') c" by blast
  from 2 obtain st2 where a2: "st2 \<in> set (matches (Lit ''_'') st1)"
    and 3: "st \<in> set (matches R3 st2)"
    unfolding R2_def matches_Cat_iff by blast
  from matches_Lit[OF a2[unfolded st1]]
  have st2: "st2 = (0 + n1 + length ''_'', drop (length ''_'') (drop n1 s), [(1, take n1 s)])"
    and l2: "take (length ''_'') (drop n1 s) = ''_''" by blast+
  define s3 where "s3 = drop (length ''_'') (drop n1 s)"
  from 3 obtain st3 where a3: "st3 \<in> set (matches (Group 2 (Plus (NoneOf ''_''))) st2)"
    and 4: "st \<in> set (matches R4 st3)"
    unfolding R3_def matches_Cat_iff by blast
  from matches_Group_Plus[OF a3[unfolded st2]] obtain n2 where n2: "1 \<le> n2" "n2 \<le> length s3"
    and st3: "st3 = (0 + n1 + length ''_'' + n2, drop n2 s3, [(2, take n2 s3), (1, take n1 s)])"
    and c2: "\<forall>c\<in>set (take n2 s3). inClass (NoneOf ''_'') c"
    unfolding s3_def by blast
  from 4 obtain st4 where a4: "st4 \<in> set (matches (Lit ''_'') st3)"
    and 5: "st \<in> set (matches R5 st4)"
    unfolding R4_def matches_Cat_iff by blast
  from matches_Lit[OF a4[unfolded st3]]
  have st4: "st4 = (0 + n1 + length ''_'' + n2 + length ''_'', drop (length ''_'') (drop n2 s3),
                    [(2, take n2 s3), (1, take n1 s)])"
    and l4: "take (length ''_'') (drop n2 s3) = ''_''" by blast+
  define s5 where "s5 = drop (length ''_'') (drop n2 s3)"
  from 5 obtain st5 where
    a5: "st5 \<in> set (matches (Group 3 (Alt (Lit ''ACam'') (Alt (Lit ''BCam'') (Lit ''CCam'')))) st4)"
    and 6: "st \<in> set (matches R6 st5)"
    unfolding R5_def matches_Cat_iff by blast
  from matches_camera[OF a5[unfolded st4]]
  have st5: "st5 = (0 + n1 + length ''_'' + n2 + length ''_'' + 4, drop 4 s5,
                    [(3, take 4 s5), (2, take n2 s3), (1, take n1 s)])"
    and cam: "take 4 s5 \<in> {''ACam'', ''BCam'', ''CCam''}"
    unfolding s5_def by blast+
  from 6 obtain st6 where a6: "st6 \<in> set (matches (Lit ''_'') st5)"
    and 7: "st \<in> set (matches R7 st6)"
    unfolding R6_def matches_Cat_iff by blast
  from matches_Lit[OF a6[unfolded st5]]
  have st6: "st6 = (0 + n1 + length ''_'' + n2 + length ''_'' + 4 + length ''_'',
                    drop (length ''_'') (drop 4 s5),
                    [(3, take 4 s5), (2, take n2 s3), (1, take n1 s)])"
    and l6: "take (length ''_'') (drop 4 s5) = ''_''" by blast+
  define s7 where "s7 = drop (length ''_'') (drop 4 s5)"
  from 7 obtain st7 where a7: "st7 \<in> set (matches (Group 4 (Plus AnyChar)) st6)"
    and 8: "st \<in> set (matches EndText st7)"
    unfolding R7_def matches_Cat_iff by blast
  from matches_Group_Plus[OF a7[unfolded st6]] obtain n4 where n4: "1 \<le> n4" "n4 \<le> length s7"
    and st7: "st7 = (0 + n1 + length ''_'' + n2 + length ''_'' + 4 + length ''_'' + n4, drop n4 s7,
                     [(4, take n4 s7), (3, take 4 s5), (2, take n2 s3), (1, take n1 s)])"
    and c4: "\<forall>c\<in>set (take n4 s7). inClass AnyChar c"
    unfolding s7_def by blast
  from 8 have e: "drop n4 s7 = []" and st: "st = st7"
    unfolding st7 by (auto split: if_splits)
  have d1: "s = take n1 s @ ''_'' @ s3"
    using l2 unfolding s3_def by (metis append_take_drop_id)
  have d2: "s3 = take n2 s3 @ ''_'' @ s5"
    using l4 unfolding s5_def by (metis append_take_drop_id)
  have d3: "s5 = take 4 s5 @ ''_'' @ s7"
    using l6 unfolding s7_def by (metis append_take_drop_id)
  have d4: "s7 = take n4 s7" using e by (metis append_take_drop_id append_Nil2)
  have dec: "s = take n1 s @ ''_'' @ take n2 s3 @ ''_'' @ take 4 s5 @ ''_'' @ take n4 s7"
    using d1 d2 d3 d4 by metis
  have ne: "take n1 s \<noteq> []" "take n2 s3 \<noteq> []" "take n4 s7 \<noteq> []"
    using n1 n2 n4 by auto
  have cl: "CHR ''_'' \<notin> set (take n1 s)" "CHR ''_'' \<notin> set (take n2 s3)"
    "CHR 0x0A \<notin> set (take n4 s7)"
    using c1 c2 c4 by auto
  have "snd (snd st) = [(4, take n4 s7), (3, take 4 s5), (2, take n2 s3), (1, take n1 s)]"
    by (simp add: st st7)
  with dec ne cam cl show ?thesis by blast
qed


lemma refRegex_anchored: "0 < start \<Longrightarrow> findFrom refRegex start s = []"
proof (induction s arbitrary: start)
  case Nil
  then show ?case by (subst findFrom.simps) (simp add: refRegex_def)
next
  case (Cons c cs)
  have "matches refRegex (start, c # cs, []) = []" using Cons.prems by (simp add: refRegex_def)
  moreover have "findFrom refRegex (Suc start) cs = []" by (rule Cons.IH) simp
  ultimately show ?case by (subst findFrom.simps) simp
qed

lemma NumSubexp_refRegex: "NumSubexp refRegex = 4"
  by (simp add: refRegex_def)

lemma upt_1_5: "[1 ..< Suc 4] = [1, 2, 3, 4]"
  by (simp add: upt_rec)

lemma FindStringSubmatch_refRegex:
  assumes "FindStringSubmatch refRegex s \<noteq> []"
  shows "\<exists>w a b c d. FindStringSubmatch refRegex s = [w, a, b, c, d]
           \<and> s = a @ ''_'' @ b @ ''_'' @ c @ ''_'' @ d
           \<and> a \<noteq> [] \<and> b \<noteq> [] \<and> c \<in> {''ACam'', ''BCam'', ''CCam''} \<and> d \<noteq> []
           \<and> CHR ''_'' \<notin> set a \<and> CHR ''_'' \<notin> set b \<and> CHR 0x0A \<notin> set d"
proof (cases "matches refRegex (0, s, [])")
  case Nil
  have "findFrom refRegex 0 s = []"
  proof (cases s)
    case Nil
    with \<open>matches refRegex (0, s, []) = []\<close> show ?thesis by (subst findFrom.simps) simp
  next
    case (Cons c cs)
    with \<open>matches refRegex (0, s, []) = []\<close> refRegex_anchored[of "Suc 0" cs] show ?thesis
      by (subst findFrom.simps) simp
  qed
  with assms show ?thesis by (simp add: FindStringSubmatch_def)
next
  case (Cons st sts)
  then have f: "FindStringSubmatch refRegex s = submatches refRegex s 0 st"
    unfolding FindStringSubmatch_def by (subst findFrom.simps) simp
  from Cons have "st \<in> set (matches refRegex (0, s, []))" by simp
  from refRegex_matches[OF this] obtain a b c d where
    caps: "snd (snd st) = [(4, d), (3, c), (2, b), (1, a)]"
    and rest: "s = a @ ''_'' @ b @ ''_'' @ c @ ''_'' @ d"
      "a \<noteq> []" "b \<noteq> []" "c \<in> {''ACam'', ''BCam'', ''CCam''}" "d \<noteq> []"
      "CHR ''_'' \<notin> set a" "CHR ''_'' \<notin> set b" "CHR 0x0A \<notin> set d"
    by blast
  obtain p' s' where st: "st = (p', s', [(4, d), (3, c), (2, b), (1, a)])"
    using caps by (cases st) auto
  have "FindStringSubmatch refRegex s = [take (p' - 0) s, a, b, c, d]"
    unfolding f st submatches_def NumSubexp_refRegex upt_1_5 by simp
  with rest show ?thesis by blast
qed


lemma ExtScan_suffix:
  "ExtScan r acc = [] \<or> (\<exists>pre. rev r @ acc = pre @ ExtScan r acc)"
proof (induction r arbitrary: acc)
  case Nil
  show ?case by simp
next
  case (Cons c cs)
  show ?case
  proof (cases "isSep c")
    case True
    then show ?thesis by simp
  next
    case False
    show ?thesis
    proof (cases "c = CHR ''.''")
      case True
      with False have "rev (c # cs) @ acc = rev cs @ ExtScan (c # cs) acc" by simp
      then show ?thesis by blast
    next
      case False
      with \<open>\<not> isSep c\<close> Cons.IH[of "c # acc"] show ?thesis by simp
    qed
  qed
qed

lemma ExtScan_empty:
  "ExtScan r acc = [] \<Longrightarrow> CHR ''/'' \<notin> set r \<Longrightarrow> CHR ''.'' \<notin> set r"
  by (induction r arbitrary: acc) (auto simp: isSep_def split: if_splits)

lemma Ext_suffix: "\<exists>pre. f = pre @ Ext f"
  using ExtScan_suffix[of "rev f" "[]"] by (auto simp: Ext_def)

lemma TrimSuffix_Ext: "f = TrimSuffix f (Ext f) @ Ext f"
proof -
  from Ext_suffix obtain pre where p: "f = pre @ Ext f" by blast
  have "TrimSuffix (pre @ Ext f) (Ext f) = pre" by (simp add: TrimSuffix_def)
  with p show ?thesis by metis
qed

lemma Ext_empty: "Ext f = [] \<Longrightarrow> CHR ''/'' \<notin> set f \<Longrightarrow> CHR ''.'' \<notin> set f"
  using ExtScan_empty[of "rev f" "[]"] by (simp add: Ext_def)


lemma list_of_length_5: "length xs = 5 \<Longrightarrow> \<exists>w a b c d. xs = [w, a, b, c, d]"
  by (auto simp: eval_nat_numeral length_Suc_conv)

lemma Parse_fields:
  "FileName (Parse p path) = Base path"
  "Extension (Parse p path) = Ext (Base path)"
  "Matched (Parse p path) \<longleftrightarrow>
     length (FindStringSubmatch (pattern p) (TrimSuffix (Base path) (Ext (Base path)))) = 5"
  by (simp_all add: Parse_def Let_def)

lemma Parse_tokens:
  assumes "FindStringSubmatch (pattern p) (TrimSuffix (Base path) (Ext (Base path))) = [w, a, b, c, d]"
  shows "Matched (Parse p path)" "ProjectName (Parse p path) = a" "Client (Parse p path) = b"
    "Camera (Parse p path) = c" "ClipNumber (Parse p path) = d"
  using assms by (simp_all add: Parse_def Let_def)

lemma Parse_refRegex:
  assumes "pattern p = refRegex" and "Matched (Parse p path)"
  shows "\<exists>a b c. TrimSuffix (Base path) (Ext (Base path))
                    = a @ ''_'' @ b @ ''_'' @ c @ ''_'' @ ClipNumber (Parse p path)
           \<and> ProjectName (Parse p path) = a \<and> Client (Parse p path) = b
           \<and> Camera (Parse p path) = c
           \<and> a \<noteq> [] \<and> b \<noteq> [] \<and> c \<in> {''ACam'', ''BCam'', ''CCam''}
           \<and> ClipNumber (Parse p path) \<noteq> []"
proof -
  let ?stem = "TrimSuffix (Base path) (Ext (Base path))"
  from assms have "FindStringSubmatch refRegex ?stem \<noteq> []"
    by (auto simp: Parse_fields)
  from FindStringSubmatch_refRegex[OF this] obtain w a b c d where
    ms: "FindStringSubmatch refRegex ?stem = [w, a, b, c, d]"
    and rest: "?stem = a @ ''_'' @ b @ ''_'' @ c @ ''_'' @ d" "a \<noteq> []" "b \<noteq> []"
      "c \<in> {''ACam'', ''BCam'', ''CCam''}" "d \<noteq> []"
    by blast
  from ms assms(1) have "FindStringSubmatch (pattern p) ?stem = [w, a, b, c, d]" by simp
  from Parse_tokens[OF this] rest show ?thesis by simp
qed

lemma refRegex_leaf_element:
  assumes "pattern p = refRegex" and "Matched (Parse p path)" and "isPathElement (Base path)"
    and "ClipNumber (Parse p path) @ Extension (Parse p path) \<noteq> ''..''"
  shows "isPathElement (ClipNumber (Parse p path) @ Extension (Parse p path))"
proof -
  let ?f = "Base path"
  let ?e = "Ext ?f"
  let ?d = "ClipNumber (Parse p path)"
  from Parse_refRegex[OF assms(1,2)] obtain a b c where
    stem: "TrimSuffix ?f ?e = a @ ''_'' @ b @ ''_'' @ c @ ''_'' @ ?d" and d: "?d \<noteq> []"
    by blast
  have f: "?f = (a @ ''_'' @ b @ ''_'' @ c @ ''_'' @ ?d) @ ?e"
    using TrimSuffix_Ext[of ?f] stem by simp
  from assms(3) have nosep: "CHR ''/'' \<notin> set ?f" by (simp add: isPathElement_def)
  have "set ?f = set (a @ ''_'' @ b @ ''_'' @ c @ ''_'' @ ?d) \<union> set ?e"
    using f by (metis set_append)
  then have sub: "set ?d \<subseteq> set ?f" "set ?e \<subseteq> set ?f" by auto
  have 1: "?d @ ?e \<noteq> []" using d by simp
  have 2: "CHR ''/'' \<notin> set (?d @ ?e)" using sub nosep by auto
  have 3: "?d @ ?e \<noteq> ''.''"
  proof
    assume "?d @ ?e = ''.''"
    with d have "?d = ''.''" "?e = []" by (auto simp: append_eq_Cons_conv)
    from Ext_empty[OF this(2) nosep] sub(1) \<open>?d = ''.''\<close> show False by auto
  qed
  from 1 2 3 assms(4) show ?thesis
    by (simp add: isPathElement_def Parse_fields)
qed

lemma matches_shape:
  "(p', s', c') \<in> set (matches r (p, s, c)) \<Longrightarrow>
     p \<le> p' \<and> p' - p \<le> length s \<and> s' = drop (p' - p) s
     \<and> (consumes r \<longrightarrow> p < p')
     \<and> (\<exists>new. c' = new @ c
            \<and> (\<forall>g. g \<in> fst ` set new \<longrightarrow> hasGroup r g)
            \<and> (\<forall>g. alwaysCaptures r g \<longrightarrow> (\<exists>t. map_of new g = Some t \<and> t \<noteq> [])))"
proof (induction r arbitrary: p s c p' s' c')
  case (Lit w)
  then have e: "take (length w) s = w" "p' = p + length w" "s' = drop (length w) s" "c' = c"
    by (auto split: if_splits)
  have "length (take (length w) s) \<le> length s" by simp
  with e(1) have "length w \<le> length s" by simp
  with e show ?case by auto
next
  case (Class k)
  then show ?case by (auto split: list.splits if_splits)
next
  case (Star k)
  then obtain n where n: "n \<le> length (takeWhile (inClass k) s)" "p' = p + n" "s' = drop n s" "c' = c"
    by (auto simp del: upt_Suc)
  have "length (takeWhile (inClass k) s) \<le> length s" by (rule length_takeWhile_le)
  with n show ?case by auto
next
  case (Plus k)
  then obtain n where n: "1 \<le> n" "n \<le> length (takeWhile (inClass k) s)" "p' = p + n"
      "s' = drop n s" "c' = c"
    by (auto simp del: upt_Suc)
  have "length (takeWhile (inClass k) s) \<le> length s" by (rule length_takeWhile_le)
  with n show ?case by auto
next
  case (Cat a b)
  from Cat.prems obtain p1 s1 c1 where
    m1: "(p1, s1, c1) \<in> set (matches a (p, s, c))"
    and m2: "(p', s', c') \<in> set (matches b (p1, s1, c1))"
    by auto
  from Cat.IH(1)[OF m1] obtain na where
    a: "p \<le> p1" "p1 - p \<le> length s" "s1 = drop (p1 - p) s" "consumes a \<longrightarrow> p < p1"
    and na: "c1 = na @ c" "\<forall>g. g \<in> fst ` set na \<longrightarrow> hasGroup a g"
      "\<forall>g. alwaysCaptures a g \<longrightarrow> (\<exists>t. map_of na g = Some t \<and> t \<noteq> [])"
    by blast
  from Cat.IH(2)[OF m2] obtain nb where
    b: "p1 \<le> p'" "p' - p1 \<le> length s1" "s' = drop (p' - p1) s1" "consumes b \<longrightarrow> p1 < p'"
    and nb: "c' = nb @ c1" "\<forall>g. g \<in> fst ` set nb \<longrightarrow> hasGroup b g"
      "\<forall>g. alwaysCaptures b g \<longrightarrow> (\<exists>t. map_of nb g = Some t \<and> t \<noteq> [])"
    by blast
  have 1: "p \<le> p'" using a b by simp
  have 2: "p' - p \<le> length s" using a b by simp
  have 3: "s' = drop (p' - p) s" using a b by simp
  have 4: "consumes (Cat a b) \<longrightarrow> p < p'" using a b by auto
  have 5: "c' = (nb @ na) @ c" using na nb by simp
  have 6: "\<forall>g. g \<in> fst ` set (nb @ na) \<longrightarrow> hasGroup (Cat a b) g" using na(2) nb(2) by auto
  have 7: "\<exists>t. map_of (nb @ na) g = Some t \<and> t \<noteq> []" if "alwaysCaptures (Cat a b) g" for g
  proof (cases "alwaysCaptures b g")
    case True
    with nb(3) obtain t where "map_of nb g = Some t" "t \<noteq> []" by blast
    then show ?thesis by (simp add: map_add_Some_iff)
  next
    case False
    with that have ag: "alwaysCaptures a g" and nh: "\<not> hasGroup b g" by auto
    from nh nb(2) have "g \<notin> fst ` set nb" by blast
    then have "map_of nb g = None" by (simp add: map_of_eq_None_iff)
    moreover from ag na(3) obtain t where "map_of na g = Some t" "t \<noteq> []" by blast
    ultimately show ?thesis by (simp add: map_add_Some_iff)
  qed
  from 1 2 3 4 5 6 7 show ?case by blast
next
  case (Alt a b)
  from Alt.prems have "(p', s', c') \<in> set (matches a (p, s, c)) \<or> (p', s', c') \<in> set (matches b (p, s, c))"
    by auto
  then show ?case
  proof
    assume "(p', s', c') \<in> set (matches a (p, s, c))"
    from Alt.IH(1)[OF this] show ?thesis by auto
  next
    assume "(p', s', c') \<in> set (matches b (p, s, c))"
    from Alt.IH(2)[OF this] show ?thesis by auto
  qed
next
  case (Group i r)
  from Group.prems obtain c1 where
    m: "(p', s', c1) \<in> set (matches r (p, s, c))" and c': "c' = (i, take (p' - p) s) # c1"
    by auto
  from Group.IH[OF m] obtain n where
    a: "p \<le> p'" "p' - p \<le> length s" "s' = drop (p' - p) s" "consumes r \<longrightarrow> p < p'"
    and n: "c1 = n @ c" "\<forall>g. g \<in> fst ` set n \<longrightarrow> hasGroup r g"
      "\<forall>g. alwaysCaptures r g \<longrightarrow> (\<exists>t. map_of n g = Some t \<and> t \<noteq> [])"
    by blast
  have 5: "c' = ((i, take (p' - p) s) # n) @ c" using c' n by simp
  have 6: "\<forall>g. g \<in> fst ` set ((i, take (p' - p) s) # n) \<longrightarrow> hasGroup (Group i r) g"
    using n(2) by auto
  have 7: "\<exists>t. map_of ((i, take (p' - p) s) # n) g = Some t \<and> t \<noteq> []"
    if "alwaysCaptures (Group i r) g" for g
  proof (cases "g = i")
    case True
    with that have "consumes r" by simp
    with a have "0 < p' - p" "p' - p \<le> length s" by auto
    then have "take (p' - p) s \<noteq> []" by auto
    with True show ?thesis by simp
  next
    case False
    with that n(3) show ?thesis by simp
  qed
  from a 5 6 7 show ?case by (simp only: consumes.simps) blast
next
  case BeginText
  then show ?case by (auto split: if_splits)
next
  case EndText
  then show ?case by (auto split: if_splits)
qed


lemma submatches_captured:
  assumes "(p', s', c') \<in> set (matches re (start, s, []))"
    and "alwaysCaptures re g" and "1 \<le> g" and "g \<le> NumSubexp re"
  shows "submatches re s start (p', s', c') ! g \<noteq> []"
proof -
  from matches_shape[OF assms(1)] assms(2) obtain t where t: "map_of c' g = Some t" "t \<noteq> []"
    by auto
  from assms(3,4) obtain k where k: "g = Suc k" "k < NumSubexp re"
    by (cases g) auto
  have "[1 ..< Suc (NumSubexp re)] ! k = Suc k" using k(2) by (simp add: nth_upt del: upt_Suc)
  with k t show ?thesis by (simp add: submatches_def del: upt_Suc)
qed

lemma findFrom_captured:
  "findFrom re start s \<noteq> [] \<Longrightarrow> alwaysCaptures re g \<Longrightarrow> 1 \<le> g \<Longrightarrow> g \<le> NumSubexp re
     \<Longrightarrow> findFrom re start s ! g \<noteq> []"
proof (induction re start s rule: findFrom.induct)
  case (1 re start s)
  show ?case
  proof (cases "matches re (start, s, [])")
    case (Cons st sts)
    obtain p' s' c' where st: "st = (p', s', c')" by (cases st)
    from Cons st have "(p', s', c') \<in> set (matches re (start, s, []))" by simp
    from submatches_captured[OF this "1.prems"(2,3,4)] Cons st show ?thesis
      by (subst findFrom.simps) simp
  next
    case Nil
    show ?thesis
    proof (cases s)
      case Nil
      with \<open>matches re (start, s, []) = []\<close> "1.prems"(1) show ?thesis
        by (subst (asm) findFrom.simps) simp
    next
      case (Cons c cs)
      with \<open>matches re (start, s, []) = []\<close>
      have e: "findFrom re start s = findFrom re (Suc start) cs"
        by (subst findFrom.simps) simp
      with "1.prems"(1) have "findFrom re (Suc start) cs \<noteq> []" by simp
      from "1.IH"[OF \<open>matches re (start, s, []) = []\<close> Cons this "1.prems"(2,3,4)] e
      show ?thesis by simp
    qed
  qed
qed

lemma alwaysCaptures_refRegex:
  "alwaysCaptures refRegex 1" "alwaysCaptures refRegex 2"
  "alwaysCaptures refRegex 3" "alwaysCaptures refRegex 4"
  by (simp_all add: refRegex_def)

lemma Parse_captured:
  assumes "NumSubexp (pattern p) = 4" and "Matched (Parse p path)"
  shows "(alwaysCaptures (pattern p) 1 \<longrightarrow> ProjectName (Parse p path) \<noteq> [])
       \<and> (alwaysCaptures (pattern p) 2 \<longrightarrow> Client (Parse p path) \<noteq> [])
       \<and> (alwaysCaptures (pattern p) 3 \<longrightarrow> Camera (Parse p path) \<noteq> [])
       \<and> (alwaysCaptures (pattern p) 4 \<longrightarrow> ClipNumber (Parse p path) \<noteq> [])"
proof -
  let ?ms = "FindStringSubmatch (pattern p) (TrimSuffix (Base path) (Ext (Base path)))"
  from assms(2) have l: "length ?ms = 5" by (simp add: Parse_fields)
  then have ne: "findFrom (pattern p) 0 (TrimSuffix (Base path) (Ext (Base path))) \<noteq> []"
    by (auto simp: FindStringSubmatch_def)
  have g: "?ms ! g \<noteq> []" if "alwaysCaptures (pattern p) g" "1 \<le> g" "g \<le> 4" for g
    using findFrom_captured[OF ne that(1,2)] that(3) assms(1) by (simp add: FindStringSubmatch_def)
  from l have f: "ProjectName (Parse p path) = ?ms ! 1" "Client (Parse p path) = ?ms ! 2"
    "Camera (Parse p path) = ?ms ! 3" "ClipNumber (Parse p path) = ?ms ! 4"
    by (simp_all add: Parse_def Let_def)
  from g[of 1] g[of 2] g[of 3] g[of 4] f show ?thesis by simp
qed

text \<open>
  C4.  For a pattern with four capture groups: when the file name without its extension
  matches, \<open>Parse\<close> sets the match flag and the four tokens (project, client, camera,
  clip remainder) are the texts of the four groups; the token of a group that takes
  part in every match of the pattern and cannot match the empty text is not empty.
  When the name does not match, the flag is false, no token is populated and the
  destination directory is the fallback folder joined to the destination root.  The
  four groups of the reference pattern are of that kind: under it the four tokens of a
  matched name are not empty, and the camera token is one of the three designators.
\<close>

theorem Parse_match_and_fallback:
  assumes "NumSubexp (pattern p) = 4"
  shows "(FindStringSubmatch (pattern p) (TrimSuffix (Base path) (Ext (Base path))) \<noteq> [] \<longrightarrow>
            Matched (Parse p path)
            \<and> [ProjectName (Parse p path), Client (Parse p path), Camera (Parse p path),
                ClipNumber (Parse p path)]
               = tl (FindStringSubmatch (pattern p) (TrimSuffix (Base path) (Ext (Base path)))))
       \<and> (FindStringSubmatch (pattern p) (TrimSuffix (Base path) (Ext (Base path))) = [] \<longrightarrow>
            \<not> Matched (Parse p path)
            \<and> ProjectName (Parse p path) = [] \<and> Client (Parse p path) = []
            \<and> Camera (Parse p path) = [] \<and> ClipNumber (Parse p path) = []
            \<and> GetDestinationPath p (Parse p path)
               = Join [Config.DestinationPath (Parser.config p),
                       UnmatchedFolder (Parsing (Parser.config p))])
       \<and> (Matched (Parse p path) \<longrightarrow>
            (alwaysCaptures (pattern p) 1 \<longrightarrow> ProjectName (Parse p path) \<noteq> [])
            \<and> (alwaysCaptures (pattern p) 2 \<longrightarrow> Client (Parse p path) \<noteq> [])
            \<and> (alwaysCaptures (pattern p) 3 \<longrightarrow> Camera (Parse p path) \<noteq> [])
            \<and> (alwaysCaptures (pattern p) 4 \<longrightarrow> ClipNumber (Parse p path) \<noteq> []))
       \<and> (pattern p = refRegex \<longrightarrow>
            alwaysCaptures (pattern p) 1 \<and> alwaysCaptures (pattern p) 2
            \<and> alwaysCaptures (pattern p) 3 \<and> alwaysCaptures (pattern p) 4)
       \<and> (pattern p = refRegex \<and> Matched (Parse p path) \<longrightarrow>
            ProjectName (Parse p path) \<noteq> [] \<and> Client (Parse p path) \<noteq> []
            \<and> Camera (Parse p path) \<in> {''ACam'', ''BCam'', ''CCam''}
            \<and> ClipNumber (Parse p path) \<noteq> [])"
proof -
  let ?ms = "FindStringSubmatch (pattern p) (TrimSuffix (Base path) (Ext (Base path)))"
  have a: "Matched (Parse p path)
            \<and> [ProjectName (Parse p path), Client (Parse p path), Camera (Parse p path),
                ClipNumber (Parse p path)] = tl ?ms" if "?ms \<noteq> []"
  proof -
    from that length_FindStringSubmatch[of "pattern p" "TrimSuffix (Base path) (Ext (Base path))"] assms
    have "length ?ms = 5" by simp
    then obtain w a b c d where "?ms = [w, a, b, c, d]"
      using list_of_length_5 by blast
    from Parse_tokens[OF this] this show ?thesis by simp
  qed
  have b: "\<not> Matched (Parse p path)
            \<and> ProjectName (Parse p path) = [] \<and> Client (Parse p path) = []
            \<and> Camera (Parse p path) = [] \<and> ClipNumber (Parse p path) = []
            \<and> GetDestinationPath p (Parse p path)
               = Join [Config.DestinationPath (Parser.config p),
                       UnmatchedFolder (Parsing (Parser.config p))]" if "?ms = []"
    using that by (simp add: Parse_def GetDestinationPath_def Let_def)
  have c: "ProjectName (Parse p path) \<noteq> [] \<and> Client (Parse p path) \<noteq> []
            \<and> Camera (Parse p path) \<in> {''ACam'', ''BCam'', ''CCam''}
            \<and> ClipNumber (Parse p path) \<noteq> []" if "pattern p = refRegex" "Matched (Parse p path)"
    using Parse_refRegex[OF that] by blast
  have d: "(alwaysCaptures (pattern p) 1 \<longrightarrow> ProjectName (Parse p path) \<noteq> [])
            \<and> (alwaysCaptures (pattern p) 2 \<longrightarrow> Client (Parse p path) \<noteq> [])
            \<and> (alwaysCaptures (pattern p) 3 \<longrightarrow> Camera (Parse p path) \<noteq> [])
            \<and> (alwaysCaptures (pattern p) 4 \<longrightarrow> ClipNumber (Parse p path) \<noteq> [])"
    if "Matched (Parse p path)"
    using Parse_captured[OF assms that] .
  have e: "alwaysCaptures (pattern p) 1 \<and> alwaysCaptures (pattern p) 2
            \<and> alwaysCaptures (pattern p) 3 \<and> alwaysCaptures (pattern p) 4"
    if "pattern p = refRegex"
    using that alwaysCaptures_refRegex by simp
  from a b c d e show ?thesis by blast
qed

text \<open>
  C3.  With the reference configuration the three names of the end-to-end scenario
  resolve to \<open>/mnt/storage/Nike/BrandVideo/ACam/001.mp4\<close>,
  \<open>/mnt/storage/Tesla/Interview/CCam/Take5.mxf\<close> and
  \<open>/mnt/storage/Unsorted/random_video.mp4\<close>.  The leaf name of a matched file is the
  clip remainder followed by the extension whenever that text is a path element; under
  the reference pattern this is the case for every file name save those whose text is
  \<open>..\<close>.  The name of an unmatched file is kept unchanged.
\<close>

theorem destination_path_and_leaf_name:
  "GetFullDestinationPath refParser (Parse refParser ''BrandVideo_Nike_ACam_001.mp4'')
     = ''/mnt/storage/Nike/BrandVideo/ACam/001.mp4''
   \<and> GetFullDestinationPath refParser (Parse refParser ''Interview_Tesla_CCam_Take5.mxf'')
     = ''/mnt/storage/Tesla/Interview/CCam/Take5.mxf''
   \<and> GetFullDestinationPath refParser (Parse refParser ''random_video.mp4'')
     = ''/mnt/storage/Unsorted/random_video.mp4''
   \<and> (Matched info \<and> isPathElement (ClipNumber info @ Extension info) \<longrightarrow>
        Base (GetFullDestinationPath p info) = ClipNumber info @ Extension info)
   \<and> (pattern p = refRegex \<and> isPathElement (Base path) \<and> Matched (Parse p path)
        \<and> ClipNumber (Parse p path) @ Extension (Parse p path) \<noteq> ''..'' \<longrightarrow>
        Base (GetFullDestinationPath p (Parse p path))
          = ClipNumber (Parse p path) @ Extension (Parse p path))
   \<and> (isPathElement (Base path) \<and> \<not> Matched (Parse p path) \<longrightarrow>
        Base (GetFullDestinationPath p (Parse p path)) = Base path)"
proof -
  have 1: "GetFullDestinationPath refParser (Parse refParser ''BrandVideo_Nike_ACam_001.mp4'')
     = ''/mnt/storage/Nike/BrandVideo/ACam/001.mp4''" by code_simp
  have 2: "GetFullDestinationPath refParser (Parse refParser ''Interview_Tesla_CCam_Take5.mxf'')
     = ''/mnt/storage/Tesla/Interview/CCam/Take5.mxf''" by code_simp
  have 3: "GetFullDestinationPath refParser (Parse refParser ''random_video.mp4'')
     = ''/mnt/storage/Unsorted/random_video.mp4''" by code_simp
  have 4: "Base (GetFullDestinationPath p i) = ClipNumber i @ Extension i"
    if "Matched i" "isPathElement (ClipNumber i @ Extension i)" for i
    using that by (simp add: GetFullDestinationPath_def Let_def Base_Join_element)
  have 5: "Base (GetFullDestinationPath p (Parse p path))
          = ClipNumber (Parse p path) @ Extension (Parse p path)"
    if "pattern p = refRegex" "isPathElement (Base path)" "Matched (Parse p path)"
      "ClipNumber (Parse p path) @ Extension (Parse p path) \<noteq> ''..''"
    using 4[OF that(3) refRegex_leaf_element[OF that(1,3,2,4)]] .
  have 6: "Base (GetFullDestinationPath p (Parse p path)) = Base path"
    if "isPathElement (Base path)" "\<not> Matched (Parse p path)"
    using that by (simp add: GetFullDestinationPath_def Let_def Base_Join_element Parse_fields)
  from 1 2 3 4 5 6 show ?thesis by blast
qed

text \<open>
  A file named \<open>A_B_ACam_..\<close> matches with clip remainder \<open>.\<close> and extension
  \<open>.\<close>; \<open>filepath.Join\<close> reads the leaf \<open>..\<close> as the parent directory,
  so the destination is the directory \<open>/mnt/storage/B/A\<close> and its leaf name is not
  the clip remainder with the extension.
\<close>

theorem dotdot_clip_loses_leaf_name:
  "Matched (Parse refParser ''/media/sdb1/A_B_ACam_..'')
   \<and> ClipNumber (Parse refParser ''/media/sdb1/A_B_ACam_..'') = ''.''
   \<and> Extension (Parse refParser ''/media/sdb1/A_B_ACam_..'') = ''.''
   \<and> GetFullDestinationPath refParser (Parse refParser ''/media/sdb1/A_B_ACam_..'') = ''/mnt/storage/B/A''
   \<and> Base (GetFullDestinationPath refParser (Parse refParser ''/media/sdb1/A_B_ACam_..''))
       \<noteq> ClipNumber (Parse refParser ''/media/sdb1/A_B_ACam_..'')
          @ Extension (Parse refParser ''/media/sdb1/A_B_ACam_..'')"
  by code_simp

text \<open>
  Under the looser pattern the name \<open>___.mov\<close> matches and all four tokens are empty.
\<close>

theorem loose_pattern_matches_with_empty_tokens:
  "NumSubexp looseRegex = 4
   \<and> FindStringSubmatch looseRegex ''___'' = [''___'', [], [], [], []]
   \<and> Matched (Parse looseParser ''/media/sdb1/___.mov'')
   \<and> ProjectName (Parse looseParser ''/media/sdb1/___.mov'') = []
   \<and> Client (Parse looseParser ''/media/sdb1/___.mov'') = []
   \<and> Camera (Parse looseParser ''/media/sdb1/___.mov'') = []
   \<and> ClipNumber (Parse looseParser ''/media/sdb1/___.mov'') = []"
  by code_simp


theorem Parse_match_and_fallback_witness:
  "NumSubexp (pattern refParser) = 4
   \<and> Matched (Parse refParser ''/media/sdb1/BrandVideo_Nike_ACam_001.mp4'')
   \<and> [ProjectName (Parse refParser ''/media/sdb1/BrandVideo_Nike_ACam_001.mp4''),
       Client (Parse refParser ''/media/sdb1/BrandVideo_Nike_ACam_001.mp4''),
       Camera (Parse refParser ''/media/sdb1/BrandVideo_Nike_ACam_001.mp4''),
       ClipNumber (Parse refParser ''/media/sdb1/BrandVideo_Nike_ACam_001.mp4'')]
      = [''BrandVideo'', ''Nike'', ''ACam'', ''001'']
   \<and> alwaysCaptures (pattern refParser) 1
   \<and> ProjectName (Parse refParser ''/media/sdb1/BrandVideo_Nike_ACam_001.mp4'') \<noteq> []
   \<and> ClipNumber (Parse refParser ''/media/sdb1/BrandVideo_Nike_ACam_001.mp4'') \<noteq> []
   \<and> \<not> Matched (Parse refParser ''/media/sdb1/random_video.mp4'')
   \<and> GetDestinationPath refParser (Parse refParser ''/media/sdb1/random_video.mp4'')
      = Join [''/mnt/storage'', ''Unsorted'']"
proof -
  let ?p1 = "''/media/sdb1/BrandVideo_Nike_ACam_001.mp4''"
  let ?p2 = "''/media/sdb1/random_video.mp4''"
  have n: "NumSubexp (pattern refParser) = 4" by (simp add: refParser_def NumSubexp_refRegex)
  have r: "pattern refParser = refRegex" by (simp add: refParser_def)
  have m1: "FindStringSubmatch (pattern refParser) (TrimSuffix (Base ?p1) (Ext (Base ?p1)))
              = [''BrandVideo_Nike_ACam_001'', ''BrandVideo'', ''Nike'', ''ACam'', ''001'']"
    by code_simp
  have m2: "FindStringSubmatch (pattern refParser) (TrimSuffix (Base ?p2) (Ext (Base ?p2))) = []"
    by code_simp
  have c: "Config.DestinationPath (Parser.config refParser) = ''/mnt/storage''"
    "UnmatchedFolder (Parsing (Parser.config refParser)) = ''Unsorted''"
    by (simp_all add: refParser_def refConfig_def)
  note T1 = Parse_match_and_fallback[OF n, of ?p1]
  note T2 = Parse_match_and_fallback[OF n, of ?p2]
  from T1 m1 have a: "Matched (Parse refParser ?p1)"
    "[ProjectName (Parse refParser ?p1), Client (Parse refParser ?p1),
      Camera (Parse refParser ?p1), ClipNumber (Parse refParser ?p1)]
     = [''BrandVideo'', ''Nike'', ''ACam'', ''001'']"
    by simp_all
  from T1 r have k: "alwaysCaptures (pattern refParser) 1" by blast
  from T1 a(1) k have g: "ProjectName (Parse refParser ?p1) \<noteq> []" by blast
  from T1 r a(1) have b: "ClipNumber (Parse refParser ?p1) \<noteq> []" by blast
  from T2 m2 c have d: "\<not> Matched (Parse refParser ?p2)"
    "GetDestinationPath refParser (Parse refParser ?p2) = Join [''/mnt/storage'', ''Unsorted'']"
    by simp_all
  from n a k g b d show ?thesis by blast
qed

theorem destination_path_and_leaf_name_witness:
  "isPathElement (Base ''/media/sdb1/BrandVideo_Nike_ACam_001.mp4'')
   \<and> Matched (Parse refParser ''/media/sdb1/BrandVideo_Nike_ACam_001.mp4'')
   \<and> Base (GetFullDestinationPath refParser (Parse refParser ''/media/sdb1/BrandVideo_Nike_ACam_001.mp4''))
      = ''001.mp4''
   \<and> isPathElement (Base ''/media/sdb1/random_video.mp4'')
   \<and> \<not> Matched (Parse refParser ''/media/sdb1/random_video.mp4'')
   \<and> Base (GetFullDestinationPath refParser (Parse refParser ''/media/sdb1/random_video.mp4''))
      = ''random_video.mp4''"
proof -
  let ?p1 = "''/media/sdb1/BrandVideo_Nike_ACam_001.mp4''"
  let ?p2 = "''/media/sdb1/random_video.mp4''"
  have r: "pattern refParser = refRegex" by (simp add: refParser_def)
  have e1: "isPathElement (Base ?p1)" and e2: "isPathElement (Base ?p2)" by code_simp+
  have m1: "Matched (Parse refParser ?p1)" and m2: "\<not> Matched (Parse refParser ?p2)" by code_simp+
  have l1: "ClipNumber (Parse refParser ?p1) @ Extension (Parse refParser ?p1) = ''001.mp4''"
    by code_simp
  have b2: "Base ?p2 = ''random_video.mp4''" by code_simp
  have le: "isPathElement (ClipNumber (Parse refParser ?p1) @ Extension (Parse refParser ?p1))"
    unfolding l1 by code_simp
  note T1 = destination_path_and_leaf_name[where p = refParser and path = ?p1
      and info = "Parse refParser ?p1"]
  note T2 = destination_path_and_leaf_name[where p = refParser and path = ?p2
      and info = "Parse refParser ?p2"]
  from T1 m1 le l1
  have a: "Base (GetFullDestinationPath refParser (Parse refParser ?p1)) = ''001.mp4''" by simp
  from T2 e2 m2 b2
  have b: "Base (GetFullDestinationPath refParser (Parse refParser ?p2)) = ''random_video.mp4''"
    by simp
  from e1 m1 a e2 m2 b show ?thesis by blast
qed

end
